theory Spec2Isabelle
  imports Main "HOL-Library.Sublist"
begin

section \<open>JavaScript strings\<close>

text \<open>
  A JavaScript string is modelled as a \<^typ>\<open>string\<close>: a list of code units, each below 256
  (Isabelle's \<^typ>\<open>char\<close>). Every literal of the program (the tags, the markers, the regular
  expressions) is ASCII. Strings held inside parsed JSON values are lists of UTF-16 code
  units (\<open>ustring\<close>), because a \<open>\uXXXX\<close> escape can denote any of them.
\<close>

type_synonym ustring = "nat list"

definition ustr :: "string \<Rightarrow> ustring" where
  "ustr s = map of_char s"

text \<open>\<open>String.prototype.toLowerCase\<close> on code units below 256: A-Z and the Latin-1 capitals
  U+00C0..U+00DE (without the multiplication sign U+00D7) move up by 32.\<close>

definition toLowerCase_char :: "char \<Rightarrow> char" where
  "toLowerCase_char c =
     (let n = (of_char c :: nat)
      in if (65 \<le> n \<and> n \<le> 90) \<or> (192 \<le> n \<and> n \<le> 222 \<and> n \<noteq> 215)
         then char_of (n + 32) else c)"

definition toLowerCase :: "string \<Rightarrow> string" where
  "toLowerCase s = map toLowerCase_char s"

text \<open>White space of \<open>trim\<close>, \<open>trimStart\<close> and the regular expression class \<open>\s\<close>, on code
  units below 256: TAB, LF, VT, FF, CR, space and the no-break space U+00A0.\<close>

definition isSpace :: "char \<Rightarrow> bool" where
  "isSpace c = ((of_char c :: nat) \<in> {9, 10, 11, 12, 13, 32, 160})"

definition trimStart :: "string \<Rightarrow> string" where
  "trimStart s = dropWhile isSpace s"

definition trim :: "string \<Rightarrow> string" where
  "trim s = rev (dropWhile isSpace (rev (dropWhile isSpace s)))"

definition startsWith :: "string \<Rightarrow> string \<Rightarrow> bool" where
  "startsWith s p = prefix p s"

definition endsWith :: "string \<Rightarrow> string \<Rightarrow> bool" where
  "endsWith s p = (length p \<le> length s \<and> drop (length s - length p) s = p)"

text \<open>\<open>s.indexOf(p)\<close>: the first index at which \<open>p\<close> occurs in \<open>s\<close>; \<open>None\<close> is the
  source's \<open>-1\<close>.\<close>

fun indexOf :: "string \<Rightarrow> string \<Rightarrow> nat option" where
  "indexOf [] p = (if p = [] then Some 0 else None)"
| "indexOf (c # cs) p =
     (if prefix p (c # cs) then Some 0 else map_option Suc (indexOf cs p))"

text \<open>\<open>s.indexOf(p, start)\<close>; a start beyond the end is clamped to the length.\<close>

definition indexOfFrom :: "string \<Rightarrow> string \<Rightarrow> nat \<Rightarrow> nat option" where
  "indexOfFrom s p start =
     (let k = min start (length s) in map_option (\<lambda>i. i + k) (indexOf (drop k s) p))"

definition includesStr :: "string \<Rightarrow> string \<Rightarrow> bool" where
  "includesStr s p = (indexOf s p \<noteq> None)"

text \<open>\<open>s.slice(0, -n)\<close> for \<open>n > 0\<close>: everything but the last \<open>n\<close> code units, empty when
  the string is shorter.\<close>

definition sliceEnd :: "string \<Rightarrow> nat \<Rightarrow> string" where
  "sliceEnd s n = take (length s - n) s"

section \<open>Regular expressions\<close>

text \<open>
  The two regular expressions of \<open>parseInvokeXml\<close> are sequences of single-character terms,
  each with a quantifier, and capture groups around some of them. \<open>rmatch\<close> is the
  backtracking matcher of ECMAScript on such sequences: a greedy quantifier tries the longer
  match first, a lazy one the shorter, and the first alternative whose continuation matches
  wins. Both expressions carry the \<open>i\<close> flag: a literal matches a code unit with the same
  ASCII upper case (no code unit between 128 and 255 canonicalises to an ASCII one).
\<close>

datatype cset = Lit char | NotCh char | AnyCh

datatype quant = Once | Star | Plus | LazyStar

datatype node = T cset quant | Mark

definition upperASCII :: "char \<Rightarrow> char" where
  "upperASCII c =
     (let n = (of_char c :: nat) in if 97 \<le> n \<and> n \<le> 122 then char_of (n - 32) else c)"

fun inset :: "cset \<Rightarrow> char \<Rightarrow> bool" where
  "inset (Lit a) c = (upperASCII a = upperASCII c)"
| "inset (NotCh a) c = (upperASCII a \<noteq> upperASCII c)"
| "inset AnyCh c = True"

text \<open>\<open>rmatch p s\<close> matches the pattern \<open>p\<close> at the start of \<open>s\<close>. It returns the input left
  at each \<open>Mark\<close> (the borders of the capture groups, in order) and the input left after the
  match.\<close>

fun rmatch :: "node list \<Rightarrow> string \<Rightarrow> (string list \<times> string) option" where
  "rmatch [] s = Some ([], s)"
| "rmatch (Mark # r) s = map_option (\<lambda>(ms, fin). (s # ms, fin)) (rmatch r s)"
| "rmatch (T cs Once # r) [] = None"
| "rmatch (T cs Once # r) (c # t) = (if inset cs c then rmatch r t else None)"
| "rmatch (T cs Plus # r) [] = None"
| "rmatch (T cs Plus # r) (c # t) = (if inset cs c then rmatch (T cs Star # r) t else None)"
| "rmatch (T cs Star # r) [] = rmatch r []"
| "rmatch (T cs Star # r) (c # t) =
     (if inset cs c
      then (case rmatch (T cs Star # r) t of Some m \<Rightarrow> Some m | None \<Rightarrow> rmatch r (c # t))
      else rmatch r (c # t))"
| "rmatch (T cs LazyStar # r) [] = rmatch r []"
| "rmatch (T cs LazyStar # r) (c # t) =
     (case rmatch r (c # t) of
        Some m \<Rightarrow> Some m
      | None \<Rightarrow> if inset cs c then rmatch (T cs LazyStar # r) t else None)"

text \<open>The capture groups of a match: group \<open>i\<close> is what was consumed between the marks
  \<open>2i\<close> and \<open>2i+1\<close>.\<close>

fun groups :: "string list \<Rightarrow> string list" where
  "groups (a # b # ms) = take (length a - length b) a # groups ms"
| "groups _ = []"

text \<open>\<open>s.match(re)\<close> without the \<open>g\<close> flag: the match at the leftmost position that has
  one.\<close>

fun rsearch :: "node list \<Rightarrow> string \<Rightarrow> string list option" where
  "rsearch p [] = map_option (\<lambda>(ms, fin). groups ms) (rmatch p [])"
| "rsearch p (c # t) =
     (case rmatch p (c # t) of
        Some (ms, fin) \<Rightarrow> Some (groups ms)
      | None \<Rightarrow> rsearch p t)"

text \<open>The loop \<open>while ((match = re.exec(s)) !== null)\<close> of a \<open>g\<close> expression: every match
  from left to right, the search resuming where the last match ended. \<open>skip\<close> counts the code
  units of the last match still to pass. (Both expressions start with a literal, so a match
  is never empty.)\<close>

fun execAll :: "node list \<Rightarrow> nat \<Rightarrow> string \<Rightarrow> string list list" where
  "execAll p skip [] = []"
| "execAll p (Suc k) (c # t) = execAll p k t"
| "execAll p 0 (c # t) =
     (case rmatch p (c # t) of
        None \<Rightarrow> execAll p 0 t
      | Some (ms, fin) \<Rightarrow> groups ms # execAll p (length (c # t) - length fin - 1) t)"

definition lits :: "string \<Rightarrow> node list" where
  "lits s = map (\<lambda>c. T (Lit c) Once) s"

text \<open>\<^verbatim>\<open>/<invoke[^>]*name="([^"]+)"[^>]*>/i\<close>\<close>

definition invokeRegex :: "node list" where
  "invokeRegex =
     lits ''<invoke'' @ [T (NotCh CHR ''>'') Star] @ lits ''name=\"''
     @ [Mark, T (NotCh CHR ''\"'') Plus, Mark] @ lits ''\"''
     @ [T (NotCh CHR ''>'') Star, T (Lit CHR ''>'') Once]"

text \<open>\<^verbatim>\<open>/<parameter[^>]*name="([^"]+)"[^>]*>([\s\S]*?)<\/parameter>/gi\<close>\<close>

definition paramRegex :: "node list" where
  "paramRegex =
     lits ''<parameter'' @ [T (NotCh CHR ''>'') Star] @ lits ''name=\"''
     @ [Mark, T (NotCh CHR ''\"'') Plus, Mark] @ lits ''\"''
     @ [T (NotCh CHR ''>'') Star, T (Lit CHR ''>'') Once]
     @ [Mark, T AnyCh LazyStar, Mark] @ lits ''</parameter>''"

section \<open>JSON values and \<open>JSON.parse\<close>\<close>

text \<open>
  A number of JavaScript is an IEEE 754 double: \<open>Finite neg m e\<close> is \<open>m * 2 ^ e\<close> with the
  sign \<open>neg\<close>, where \<open>m\<close> is odd and positive, or zero with \<open>e = 0\<close> (so that equal doubles are equal
  terms), and \<open>Infinite neg\<close> is an infinity. \<open>JSON.parse\<close> never yields a NaN.
\<close>

datatype double = Finite bool int int | Infinite bool

text \<open>The number of binary digits of a positive integer.\<close>

function bitLength :: "int \<Rightarrow> int" where
  "bitLength n = (if n \<le> 0 then 0 else 1 + bitLength (n div 2))"
  by pat_completeness auto
termination
  by (relation "measure nat") auto

text \<open>The normal form of \<open>m * 2 ^ k\<close>: an odd \<open>m\<close>, or zero.\<close>

function stripTwos :: "int \<Rightarrow> int \<Rightarrow> int \<times> int" where
  "stripTwos m k =
     (if m \<le> 0 then (0, 0) else if odd m then (m, k) else stripTwos (m div 2) (k + 1))"
  by pat_completeness auto
termination
  by (relation "measure (\<lambda>(m, k). nat m)") auto

text \<open>The integer nearest to \<open>n / d\<close>, the even one of two that are equally near.\<close>

definition roundHalfEven :: "int \<Rightarrow> int \<Rightarrow> int" where
  "roundHalfEven n d =
     (let q = n div d; r = n mod d
      in if 2 * r > d \<or> (2 * r = d \<and> odd q) then q + 1 else q)"

text \<open>
  The double that a decimal literal denotes: \<open>m * 10 ^ e10\<close> rounded to the nearest double,
  ties to even. With \<open>t\<close> the binary exponent of the value (\<open>2 ^ t \<le> value < 2 ^ (t + 1)\<close>),
  the last binary digit kept has the weight \<open>2 ^ k\<close>, \<open>k = t - 52\<close>, and not less than
  \<open>2 ^ -1074\<close> (the subnormal numbers); a value that rounds to \<open>2 ^ 1024\<close> or more is an
  infinity.
\<close>

definition toDouble :: "bool \<Rightarrow> int \<Rightarrow> int \<Rightarrow> double" where
  "toDouble neg m e10 =
     (if m \<le> 0 then Finite neg 0 0
      else
        (let num = (if e10 \<ge> 0 then m * 10 ^ nat e10 else m);
             den = (if e10 \<ge> 0 then 1 else 10 ^ nat (- e10));
             b = bitLength num - bitLength den;
             t = (if (if b \<ge> 0 then num \<ge> den * 2 ^ nat b else num * 2 ^ nat (- b) \<ge> den)
                  then b else b - 1);
             k = max (t - 52) (- 1074);
             q = (if k \<ge> 0 then roundHalfEven num (den * 2 ^ nat k)
                  else roundHalfEven (num * 2 ^ nat (- k)) den)
         in if t \<ge> 1024 \<or> (k = 971 \<and> q \<ge> 2 ^ 53) then Infinite neg
            else (case stripTwos q k of (m', k') \<Rightarrow> Finite neg m' k')))"

text \<open>
  The values \<open>JSON.parse\<close> builds. An object is the list of its own properties in the order
  in which JavaScript enumerates them: the keys that are array indices first, in ascending
  order, then the other keys in the order of their creation.
\<close>

datatype json =
    JNull
  | JBool bool
  | JNumber double
  | JString ustring
  | JArray "json list"
  | JObject "(ustring \<times> json) list"

text \<open>An array index: the decimal text, without a leading zero, of a number up to
  \<open>2 ^ 32 - 2\<close>.\<close>

fun canonicalDigits :: "ustring \<Rightarrow> bool" where
  "canonicalDigits [] = False"
| "canonicalDigits [c] = (48 \<le> c \<and> c \<le> 57)"
| "canonicalDigits (c # d # r) = (49 \<le> c \<and> c \<le> 57 \<and> list_all (\<lambda>x. 48 \<le> x \<and> x \<le> 57) (d # r))"

definition arrayIndex :: "ustring \<Rightarrow> int option" where
  "arrayIndex k =
     (let n = foldl (\<lambda>a c. 10 * a + (int c - 48)) 0 k
      in if canonicalDigits k \<and> n < 4294967295 then Some n else None)"

text \<open>
  \<open>obj[k] = v\<close> on an object without setters (and what \<open>JSON.parse\<close> does for a member):
  an own property \<open>k\<close> keeps its place and takes the value; a new one is created, an array
  index at its place among the indices, any other key at the end. \<open>ix\<close> reads a key as an
  array index.
\<close>

fun setProp :: "('k \<Rightarrow> int option) \<Rightarrow> 'k \<Rightarrow> 'v \<Rightarrow> ('k \<times> 'v) list \<Rightarrow> ('k \<times> 'v) list" where
  "setProp ix k v [] = [(k, v)]"
| "setProp ix k v ((k', v') # ps) =
     (if k' = k then (k, v) # ps
      else
        (case ix k of
           None \<Rightarrow> (k', v') # setProp ix k v ps
         | Some i \<Rightarrow>
             (case ix k' of
                None \<Rightarrow> (k, v) # (k', v') # ps
              | Some j \<Rightarrow>
                  if i < j then (k, v) # (k', v') # ps
                  else (k', v') # setProp ix k v ps)))"

definition isJsonSpace :: "char \<Rightarrow> bool" where
  "isJsonSpace c = ((of_char c :: nat) \<in> {9, 10, 13, 32})"

definition skipWs :: "string \<Rightarrow> string" where
  "skipWs s = dropWhile isJsonSpace s"

definition isDigit :: "char \<Rightarrow> bool" where
  "isDigit c = (48 \<le> (of_char c :: nat) \<and> (of_char c :: nat) \<le> 57)"

definition digitsVal :: "string \<Rightarrow> int" where
  "digitsVal ds = foldl (\<lambda>a c. 10 * a + (of_char c - 48)) 0 ds"

definition hexVal :: "char \<Rightarrow> nat option" where
  "hexVal c =
     (let n = (of_char c :: nat)
      in if 48 \<le> n \<and> n \<le> 57 then Some (n - 48)
         else if 65 \<le> n \<and> n \<le> 70 then Some (n - 55)
         else if 97 \<le> n \<and> n \<le> 102 then Some (n - 87)
         else None)"

text \<open>The integer part of a number: a single \<open>0\<close>, or a non-zero digit and more digits.\<close>

definition jsonInt :: "string \<Rightarrow> (string \<times> string) option" where
  "jsonInt s =
     (case s of
        [] \<Rightarrow> None
      | c # r \<Rightarrow>
          if c = CHR ''0'' then Some ([c], r)
          else if isDigit c then Some (takeWhile isDigit s, dropWhile isDigit s)
          else None)"

text \<open>The optional fraction: a dot must be followed by at least one digit.\<close>

definition jsonFrac :: "string \<Rightarrow> (string \<times> string) option" where
  "jsonFrac s =
     (case s of
        c # r \<Rightarrow>
          if c = CHR ''.''
          then (if takeWhile isDigit r = [] then None
                else Some (takeWhile isDigit r, dropWhile isDigit r))
          else Some ([], s)
      | [] \<Rightarrow> Some ([], s))"

text \<open>The optional exponent: \<open>e\<close> or \<open>E\<close>, an optional sign, at least one digit.\<close>

definition jsonExp :: "string \<Rightarrow> (int \<times> string) option" where
  "jsonExp s =
     (case s of
        c # r \<Rightarrow>
          if c = CHR ''e'' \<or> c = CHR ''E''
          then (let neg = (case r of d # _ \<Rightarrow> d = CHR ''-'' | [] \<Rightarrow> False);
                    r1 = (case r of d # r' \<Rightarrow> if d = CHR ''-'' \<or> d = CHR ''+'' then r' else r
                          | [] \<Rightarrow> r)
                in if takeWhile isDigit r1 = [] then None
                   else Some ((if neg then - digitsVal (takeWhile isDigit r1)
                               else digitsVal (takeWhile isDigit r1)),
                              dropWhile isDigit r1))
          else Some (0, s)
      | [] \<Rightarrow> Some (0, s))"

definition jsonNumber :: "string \<Rightarrow> (json \<times> string) option" where
  "jsonNumber s =
     (let neg = (case s of c # _ \<Rightarrow> c = CHR ''-'' | [] \<Rightarrow> False);
          s1 = (if neg then tl s else s)
      in case jsonInt s1 of
           None \<Rightarrow> None
         | Some (ip, s2) \<Rightarrow>
             (case jsonFrac s2 of
                None \<Rightarrow> None
              | Some (fd, s3) \<Rightarrow>
                  (case jsonExp s3 of
                     None \<Rightarrow> None
                   | Some (ex, s4) \<Rightarrow>
                       Some (JNumber (toDouble neg (digitsVal (ip @ fd)) (ex - int (length fd))),
                             s4))))"

text \<open>What follows a backslash in a string: one of the eight single-character escapes, or
  \<open>u\<close> and four hexadecimal digits. The result is the code unit denoted and the input left.\<close>

definition jsonEscape :: "string \<Rightarrow> (nat \<times> string) option" where
  "jsonEscape cs =
     (case cs of
        [] \<Rightarrow> None
      | e # r \<Rightarrow>
          if e = CHR ''u'' then
            (case r of
               h1 # h2 # h3 # h4 # r' \<Rightarrow>
                 (case (hexVal h1, hexVal h2, hexVal h3, hexVal h4) of
                    (Some a, Some b, Some c, Some d) \<Rightarrow>
                      Some (((a * 16 + b) * 16 + c) * 16 + d, r')
                  | _ \<Rightarrow> None)
             | _ \<Rightarrow> None)
          else
            map_option (\<lambda>n. (n, r))
              (map_of
                 [(CHR ''\"'', 34::nat), (CHR 0x5C, 92), (CHR ''/'', 47), (CHR ''b'', 8),
                  (CHR ''f'', 12), (CHR ''n'', 10), (CHR ''r'', 13), (CHR ''t'', 9)] e))"

text \<open>The code units of a string after its opening quote, up to the closing quote: no raw
  control character, and the escapes of JSON.\<close>

function jsonChars :: "string \<Rightarrow> (ustring \<times> string) option" where
  "jsonChars [] = None"
| "jsonChars (c # cs) =
     (if c = CHR ''\"'' then Some ([], cs)
      else if c = CHR 0x5C then
        (case jsonEscape cs of
           None \<Rightarrow> None
         | Some (n, r) \<Rightarrow> map_option (\<lambda>(u, fin). (n # u, fin)) (jsonChars r))
      else if (of_char c :: nat) < 32 then None
      else map_option (\<lambda>(u, fin). (of_char c # u, fin)) (jsonChars cs))"
  by pat_completeness auto
termination
proof (relation "measure length")
  show "wf (measure length)" by simp
next
  fix c :: char and cs :: string and x2 :: "nat \<times> string" and x y
  assume "jsonEscape cs = Some x2" and "(x, y) = x2"
  then have "jsonEscape cs = Some (x, y)" by simp
  then have "length y < length cs"
    by (auto simp: jsonEscape_def split: list.splits if_splits option.splits)
  then show "(y, c # cs) \<in> measure length" by simp
next
  fix c :: char and cs :: string
  show "(cs, c # cs) \<in> measure length" by simp
qed

text \<open>The properties of an object, from its members in the order of the text: a later
  member with the same key replaces the value of the earlier one.\<close>

definition assignAll :: "(ustring \<times> json) list \<Rightarrow> (ustring \<times> json) list" where
  "assignAll ms = foldl (\<lambda>acc (k, v). setProp arrayIndex k v acc) [] ms"

text \<open>
  The recursive descent on values, array elements and object members. The first argument
  bounds the number of nested calls; \<open>JSON_parse\<close> starts it at twice the length of the
  text plus two, which is never used up (\<open>jsonValue_fuel\<close> below), as all but every second
  call in a chain consume a code unit. Each function returns the value and the input left
  after it.
\<close>

fun jsonValue :: "nat \<Rightarrow> string \<Rightarrow> (json \<times> string) option"
  and jsonElements :: "nat \<Rightarrow> string \<Rightarrow> (json list \<times> string) option"
  and jsonMembers :: "nat \<Rightarrow> string \<Rightarrow> ((ustring \<times> json) list \<times> string) option"
where
  "jsonValue 0 s = None"
| "jsonValue (Suc n) s =
     (case skipWs s of
        [] \<Rightarrow> None
      | c # cs \<Rightarrow>
          if c = CHR ''{'' then
            (case skipWs cs of
               [] \<Rightarrow> None
             | d # r \<Rightarrow>
                 if d = CHR ''}'' then Some (JObject [], r)
                 else map_option (\<lambda>(ms, fin). (JObject (assignAll ms), fin)) (jsonMembers n cs))
          else if c = CHR ''['' then
            (case skipWs cs of
               [] \<Rightarrow> None
             | d # r \<Rightarrow>
                 if d = CHR '']'' then Some (JArray [], r)
                 else map_option (\<lambda>(vs, fin). (JArray vs, fin)) (jsonElements n cs))
          else if c = CHR ''\"'' then
            map_option (\<lambda>(u, fin). (JString u, fin)) (jsonChars cs)
          else if prefix ''true'' (c # cs) then Some (JBool True, drop 4 (c # cs))
          else if prefix ''false'' (c # cs) then Some (JBool False, drop 5 (c # cs))
          else if prefix ''null'' (c # cs) then Some (JNull, drop 4 (c # cs))
          else jsonNumber (c # cs))"
| "jsonElements 0 s = None"
| "jsonElements (Suc n) s =
     (case jsonValue n s of
        None \<Rightarrow> None
      | Some (v, r) \<Rightarrow>
          (case skipWs r of
             [] \<Rightarrow> None
           | d # r' \<Rightarrow>
               if d = CHR '','' then
                 map_option (\<lambda>(vs, fin). (v # vs, fin)) (jsonElements n r')
               else if d = CHR '']'' then Some ([v], r')
               else None))"
| "jsonMembers 0 s = None"
| "jsonMembers (Suc n) s =
     (case skipWs s of
        [] \<Rightarrow> None
      | q # cs \<Rightarrow>
          if q \<noteq> CHR ''\"'' then None
          else
            (case jsonChars cs of
               None \<Rightarrow> None
             | Some (k, r) \<Rightarrow>
                 (case skipWs r of
                    [] \<Rightarrow> None
                  | col # r1 \<Rightarrow>
                      if col \<noteq> CHR '':'' then None
                      else
                        (case jsonValue n r1 of
                           None \<Rightarrow> None
                         | Some (v, r2) \<Rightarrow>
                             (case skipWs r2 of
                                [] \<Rightarrow> None
                              | d # r3 \<Rightarrow>
                                  if d = CHR '','' then
                                    map_option (\<lambda>(ms, fin). ((k, v) # ms, fin))
                                      (jsonMembers n r3)
                                  else if d = CHR ''}'' then Some ([(k, v)], r3)
                                  else None)))))"

text \<open>\<open>JSON.parse(text)\<close>: one value between optional white space and nothing else;
  \<open>None\<close> is the \<open>SyntaxError\<close> it throws.\<close>

definition JSON_parse :: "string \<Rightarrow> json option" where
  "JSON_parse s =
     (case jsonValue (2 * length s + 2) s of
        None \<Rightarrow> None
      | Some (v, r) \<Rightarrow> if skipWs r = [] then Some v else None)"

section \<open>The invoke-block extractor\<close>

text \<open>A parsed call: the \<open>name\<close> and the \<open>arguments\<close> object, as the association list of
  its own properties.\<close>

type_synonym ParsedInvokeCall = "string \<times> (string \<times> json) list"

text \<open>The value of one parameter: its trimmed inner text parsed as JSON, the trimmed text
  itself when that throws, the empty string when there is no text.\<close>

definition paramValue :: "string \<Rightarrow> json" where
  "paramValue rawValue =
     (let trimmed = trim rawValue
      in if trimmed \<noteq> []
         then (case JSON_parse trimmed of Some v \<Rightarrow> v | None \<Rightarrow> JString (ustr trimmed))
         else JString [])"

text \<open>\<open>params[key] = value\<close> on the plain object \<open>params\<close>. (The runtime of this
  repository, Deno, has no \<open>__proto__\<close> accessor on \<open>Object.prototype\<close>: that key makes
  an own property like any other.)\<close>

definition assignParam :: "(string \<times> json) list \<Rightarrow> string list \<Rightarrow> (string \<times> json) list" where
  "assignParam params m =
     (case m of
        [key, rawValue] \<Rightarrow> setProp (\<lambda>k. arrayIndex (ustr k)) key (paramValue rawValue) params
      | _ \<Rightarrow> params)"

text \<open>\<open>parseInvokeXml\<close>: \<open>None\<close> is the source's \<open>null\<close>. Nothing in the body throws (the
  \<open>SyntaxError\<close> of \<open>JSON.parse\<close> is caught inside), so the outer \<open>catch\<close> is never
  entered.\<close>

definition parseInvokeXml :: "string \<Rightarrow> ParsedInvokeCall option" where
  "parseInvokeXml xml =
     (case rsearch invokeRegex xml of
        None \<Rightarrow> None
      | Some gs \<Rightarrow>
          (case gs of
             [] \<Rightarrow> None
           | name # _ \<Rightarrow> Some (name, foldl assignParam [] (execAll paramRegex 0 xml))))"

section \<open>The text of a delta\<close>

text \<open>
  \<open>extractDeltaText\<close> of \<open>main.ts\<close> receives \<open>json?.choices?.[0]?.delta\<close>: a value that
  \<open>JSON.parse\<close> built, or \<open>undefined\<close> (\<open>None\<close>). Its body can raise the exceptions of the
  built-in operations it calls: a \<open>TypeError\<close> or a \<open>RangeError\<close> of the string coercion
  \<open>String\<close>, and the \<open>RangeError\<close> of \<open>join\<close> when the result would be longer than the
  longest string of the engine.
\<close>

datatype jsError = TypeError | RangeError

text \<open>\<open>String(x ?? "")\<close>, for a string coercion \<open>str\<close>.\<close>

definition coerceText :: "(json \<Rightarrow> jsError + ustring) \<Rightarrow> json \<Rightarrow> jsError + ustring" where
  "coerceText str t = (if t = JNull then Inr [] else str t)"

text \<open>\<open>!v\<close>\<close>

definition falsy :: "json \<Rightarrow> bool" where
  "falsy v = (case v of
       JNull \<Rightarrow> True
     | JBool b \<Rightarrow> \<not> b
     | JNumber d \<Rightarrow> (case d of Finite neg m e \<Rightarrow> m = 0 | Infinite neg \<Rightarrow> False)
     | JString u \<Rightarrow> u = []
     | _ \<Rightarrow> False)"

text \<open>\<open>v.k\<close> and \<open>k in v\<close> for the keys \<open>content\<close> and \<open>text\<close>, which no prototype defines:
  the own property of an object, \<open>undefined\<close> on anything else (arrays included).\<close>

definition getProp :: "json \<Rightarrow> string \<Rightarrow> json option" where
  "getProp v k = (case v of JObject kvs \<Rightarrow> map_of kvs (ustr k) | _ \<Rightarrow> None)"

text \<open>The callback of \<open>content.map\<close>.\<close>

definition partText :: "(json \<Rightarrow> jsError + ustring) \<Rightarrow> json \<Rightarrow> jsError + ustring" where
  "partText str part =
     (case part of
        JString u \<Rightarrow> Inr u
      | JObject kvs \<Rightarrow>
          (case getProp part ''text'' of Some t \<Rightarrow> coerceText str t | None \<Rightarrow> Inr [])
      | _ \<Rightarrow> Inr [])"

text \<open>\<open>content.map(...)\<close> calls the callback on the elements in order; the first call that
  throws ends it.\<close>

fun collect :: "(jsError + ustring) list \<Rightarrow> jsError + ustring list" where
  "collect [] = Inr []"
| "collect (Inl err # rs) = Inl err"
| "collect (Inr a # rs) = (case collect rs of Inl err \<Rightarrow> Inl err | Inr as \<Rightarrow> Inr (a # as))"

text \<open>\<open>parts.join("")\<close> on strings: their concatenation, or a \<open>RangeError\<close> when it is longer
  than \<open>maxLen\<close>, the greatest length of a string in the engine.\<close>

definition joinStrings :: "nat \<Rightarrow> ustring list \<Rightarrow> jsError + ustring" where
  "joinStrings maxLen parts =
     (if maxLen < length (concat parts) then Inl RangeError else Inr (concat parts))"

text \<open>\<open>extractDeltaText\<close>. \<open>str\<close> is the built-in \<open>String\<close> and \<open>maxLen\<close> the greatest
  length of a string.\<close>

definition extractDeltaText ::
    "(json \<Rightarrow> jsError + ustring) \<Rightarrow> nat \<Rightarrow> json option \<Rightarrow> jsError + ustring" where
  "extractDeltaText str maxLen delta =
     (case delta of
        None \<Rightarrow> Inr []
      | Some d \<Rightarrow>
          if falsy d then Inr []
          else
            (case getProp d ''content'' of
               None \<Rightarrow> Inr []
             | Some content \<Rightarrow>
                 if falsy content then Inr []
                 else
                   (case content of
                      JString u \<Rightarrow> Inr u
                    | JArray parts \<Rightarrow>
                        (case collect (map (partText str) parts) of
                           Inl err \<Rightarrow> Inl err
                         | Inr texts \<Rightarrow> joinStrings maxLen texts)
                    | JObject kvs \<Rightarrow>
                        (case getProp content ''text'' of
                           Some t \<Rightarrow> coerceText str t
                         | None \<Rightarrow> Inr [])
                    | _ \<Rightarrow> Inr [])))"

text \<open>
  \<open>String(v)\<close> on a JSON value, that is \<open>ToString\<close> of ECMAScript, in an engine whose
  strings have at most \<open>maxLen\<close> code units and whose call stack has room for \<open>depth\<close>
  nested calls of \<open>Array.prototype.join\<close>.
  \<^item> An array is joined with commas, \<open>null\<close> elements printing as nothing; \<open>acc\<close> is the text
    joined so far. Each nested array needs a call of \<open>join\<close> inside the one that prints
    the array around it, and a \<open>RangeError\<close> is thrown where the stack has no room for it,
    or where the text would be longer than \<open>maxLen\<close>.
  \<^item> A plain object prints as \<open>[object Object]\<close> through \<open>Object.prototype.toString\<close>,
    unless it has an own property \<open>toString\<close>: that value is not callable, \<open>valueOf\<close> (own
    and not callable, or inherited and returning the object) gives no primitive either,
    and a \<open>TypeError\<close> is thrown.
  \<^item> The text of a number is \<open>Number::toString\<close>, the shortest decimal that reads back as
    the same double; it is the parameter \<open>nts\<close>.
\<close>

fun ToString :: "(double \<Rightarrow> ustring) \<Rightarrow> nat \<Rightarrow> nat \<Rightarrow> json \<Rightarrow> jsError + ustring"
  and joinArray ::
    "(double \<Rightarrow> ustring) \<Rightarrow> nat \<Rightarrow> nat \<Rightarrow> ustring \<Rightarrow> json list \<Rightarrow> jsError + ustring"
where
  "ToString nts maxLen depth JNull = Inr (ustr ''null'')"
| "ToString nts maxLen depth (JBool b) = Inr (ustr (if b then ''true'' else ''false''))"
| "ToString nts maxLen depth (JNumber d) = Inr (nts d)"
| "ToString nts maxLen depth (JString u) = Inr u"
| "ToString nts maxLen 0 (JArray vs) = Inl RangeError"
| "ToString nts maxLen (Suc depth) (JArray []) = Inr []"
| "ToString nts maxLen (Suc depth) (JArray (v # vs)) =
     (case (if v = JNull then Inr [] else ToString nts maxLen depth v) of
        Inl err \<Rightarrow> Inl err
      | Inr a \<Rightarrow> joinArray nts maxLen depth a vs)"
| "ToString nts maxLen depth (JObject kvs) =
     (if ustr ''toString'' \<in> fst ` set kvs then Inl TypeError
      else Inr (ustr ''[object Object]''))"
| "joinArray nts maxLen depth acc [] = Inr acc"
| "joinArray nts maxLen depth acc (v # vs) =
     (case (if v = JNull then Inr [] else ToString nts maxLen depth v) of
        Inl err \<Rightarrow> Inl err
      | Inr a \<Rightarrow>
          if maxLen < length acc + 1 + length a then Inl RangeError
          else joinArray nts maxLen depth (acc @ ustr '','' @ a) vs)"

text \<open>The coercion as a total function, where it returns.\<close>

definition textOf :: "(json \<Rightarrow> jsError + ustring) \<Rightarrow> json \<Rightarrow> ustring" where
  "textOf str t = (case coerceText str t of Inr u \<Rightarrow> u | Inl err \<Rightarrow> [])"

text \<open>
  The precedence in the words of the specification, for a coercion \<open>txt\<close>: the \<open>text\<close>
  field of an object coerced to a string, nothing for an object without one and for
  anything else; an element of a sequence is itself when it is a string, else its
  \<open>fieldText\<close>; the text of a delta is its \<open>content\<close> when that is a string, the
  concatenation of the elements when it is a sequence, its \<open>fieldText\<close> when it is a single
  object, and empty in every other case.
\<close>

definition fieldText :: "(json \<Rightarrow> ustring) \<Rightarrow> json \<Rightarrow> ustring" where
  "fieldText txt v =
     (case v of
        JObject kvs \<Rightarrow> (case map_of kvs (ustr ''text'') of Some t \<Rightarrow> txt t | None \<Rightarrow> [])
      | _ \<Rightarrow> [])"

definition elementText :: "(json \<Rightarrow> ustring) \<Rightarrow> json \<Rightarrow> ustring" where
  "elementText txt v = (case v of JString u \<Rightarrow> u | _ \<Rightarrow> fieldText txt v)"

definition deltaTextSpec :: "(json \<Rightarrow> ustring) \<Rightarrow> json option \<Rightarrow> ustring" where
  "deltaTextSpec txt delta =
     (case delta of
        Some (JObject dkvs) \<Rightarrow>
          (case map_of dkvs (ustr ''content'') of
             Some (JString u) \<Rightarrow> u
           | Some (JArray parts) \<Rightarrow> concat (map (elementText txt) parts)
           | Some (JObject kvs) \<Rightarrow> fieldText txt (JObject kvs)
           | _ \<Rightarrow> [])
      | _ \<Rightarrow> [])"

text \<open>The \<open>text\<close> fields that \<open>extractDeltaText\<close> coerces, in order.\<close>

definition textField :: "json \<Rightarrow> json list" where
  "textField v =
     (case v of
        JObject kvs \<Rightarrow> (case map_of kvs (ustr ''text'') of Some t \<Rightarrow> [t] | None \<Rightarrow> [])
      | _ \<Rightarrow> [])"

definition coercedTexts :: "json option \<Rightarrow> json list" where
  "coercedTexts delta =
     (case delta of
        Some (JObject dkvs) \<Rightarrow>
          (case map_of dkvs (ustr ''content'') of
             Some (JArray parts) \<Rightarrow> concat (map textField parts)
           | Some (JObject kvs) \<Rightarrow> textField (JObject kvs)
           | _ \<Rightarrow> [])
      | _ \<Rightarrow> [])"

text \<open>The exception of the first of these coercions that throws, if any.\<close>

fun firstFailure :: "(json \<Rightarrow> jsError + ustring) \<Rightarrow> json list \<Rightarrow> jsError option" where
  "firstFailure str [] = None"
| "firstFailure str (t # ts) =
     (case coerceText str t of Inl err \<Rightarrow> Some err | Inr u \<Rightarrow> firstFailure str ts)"

text \<open>Whether the content of the delta is a sequence, so that its text is a \<open>join\<close>.\<close>

definition joined :: "json option \<Rightarrow> bool" where
  "joined delta =
     (case delta of
        Some (JObject dkvs) \<Rightarrow>
          (case map_of dkvs (ustr ''content'') of Some (JArray parts) \<Rightarrow> True | _ \<Rightarrow> False)
      | _ \<Rightarrow> False)"

text \<open>
  Deltas for the examples: one whose \<open>text\<close> is an object with an own \<open>toString\<close>
  property; one with a sequence of mixed elements; and, for every \<open>n\<close>, one whose \<open>text\<close>
  is an empty array inside \<open>n\<close> arrays. \<open>noDigits\<close> prints no number: it stands for
  \<open>Number::toString\<close> where no number is printed. The greatest string length is that of
  V8, \<open>2 ^ 29 - 24\<close>.
\<close>

definition noDigits :: "double \<Rightarrow> ustring" where
  "noDigits d = []"

definition v8MaxLength :: nat where
  "v8MaxLength = 536870888"

definition throwingDelta :: "json option" where
  "throwingDelta =
     Some (JObject [(ustr ''content'',
             JObject [(ustr ''text'', JObject [(ustr ''toString'', JNull)])])])"

definition mixedDelta :: "json option" where
  "mixedDelta =
     Some (JObject [(ustr ''content'',
             JArray [JString (ustr ''a''),
                     JObject [(ustr ''text'', JString (ustr ''b''))],
                     JObject [(ustr ''text'', JNull)],
                     JNumber (Finite False 5 0),
                     JObject [(ustr ''text'', JBool True)],
                     JObject [(ustr ''type'', JString (ustr ''x''))],
                     JArray [JString (ustr ''c'')]])])"

fun nestedArray :: "nat \<Rightarrow> json" where
  "nestedArray 0 = JArray []"
| "nestedArray (Suc n) = JArray [nestedArray n]"

definition nestedDelta :: "nat \<Rightarrow> json option" where
  "nestedDelta n =
     Some (JObject [(ustr ''content'', JObject [(ustr ''text'', nestedArray n)])])"

section \<open>The parser\<close>

datatype ParserEvent =
    TextEv string
  | ThinkingEv string
  | ToolCallEv ParsedInvokeCall
  | EndEv

record ToolifyParser =
  triggerSignal :: "string option"
  thinkingEnabled :: bool
  buffer :: string
  captureBuffer :: string
  capturing :: bool
  thinkingMode :: bool
  thinkingBuffer :: string
  events :: "ParserEvent list"

definition THINKING_START_TAG :: string where
  "THINKING_START_TAG = ''<thinking>''"

definition THINKING_END_TAG :: string where
  "THINKING_END_TAG = ''</thinking>''"

text \<open>The constructor.\<close>

definition newParser :: "string option \<Rightarrow> bool \<Rightarrow> ToolifyParser" where
  "newParser trig th =
     \<lparr> triggerSignal = trig, thinkingEnabled = th, buffer = [], captureBuffer = [],
       capturing = False, thinkingMode = False, thinkingBuffer = [], events = [] \<rparr>"

text \<open>\<open>!this.triggerSignal\<close>: true when the signal is absent and when it is the empty
  string.\<close>

definition noTrigger :: "ToolifyParser \<Rightarrow> bool" where
  "noTrigger s = (case triggerSignal s of None \<Rightarrow> True | Some t \<Rightarrow> t = [])"

text \<open>\<open>this.events.push(e)\<close>\<close>

definition push :: "ParserEvent \<Rightarrow> ToolifyParser \<Rightarrow> ToolifyParser" where
  "push e s = s\<lparr>events := events s @ [e]\<rparr>"

text \<open>\<open>content.replace(/^\s*>\s*/, "")\<close>: the correction of the leading artifact.\<close>

definition stripArtifact :: "string \<Rightarrow> string" where
  "stripArtifact s =
     (case dropWhile isSpace s of
        [] \<Rightarrow> s
      | c # r \<Rightarrow> if c = CHR ''>'' then dropWhile isSpace r else s)"

text \<open>The loop of \<open>tryEmitInvokes\<close> that drops the invoke blocks after the first one: the
  result is \<open>filteredContent\<close>.\<close>

function filterInvokes :: "string \<Rightarrow> string" where
  "filterInvokes remaining =
     (let trimmed = trimStart remaining
      in if trimmed = [] then []
         else if startsWith (toLowerCase trimmed) ''<invoke''
         then (case indexOf trimmed ''</invoke>'' of
                 Some nextEndIdx \<Rightarrow> filterInvokes (drop (nextEndIdx + length ''</invoke>'') trimmed)
               | None \<Rightarrow> remaining)
         else remaining)"
  by pat_completeness auto
termination
proof (relation "measure length")
  show "wf (measure length)" by simp
next
  fix remaining :: string and x x2
  assume "x = trimStart remaining" and ne: "x \<noteq> []"
  then have "length x \<le> length remaining"
    by (simp add: trimStart_def length_dropWhile_le)
  moreover from ne have "length (drop (x2 + length ''</invoke>'') x) < length x"
    by (cases x) simp_all
  ultimately show "(drop (x2 + length ''</invoke>'') x, remaining) \<in> measure length"
    by simp
qed

declare filterInvokes.simps [simp del]

definition tryEmitInvokes :: "bool \<Rightarrow> ToolifyParser \<Rightarrow> ToolifyParser" where
  "tryEmitInvokes force s =
     (let lower = toLowerCase (captureBuffer s)
      in case indexOf lower ''<invoke'' of
           None \<Rightarrow>
             if \<not> force then s
             else if captureBuffer s \<noteq> []
             then (push (TextEv (captureBuffer s)) s)\<lparr>captureBuffer := [], capturing := False\<rparr>
             else s\<lparr>capturing := False\<rparr>
         | Some startIdx \<Rightarrow>
             (case indexOfFrom (captureBuffer s) ''</invoke>'' startIdx of
                None \<Rightarrow> s
              | Some endIdx \<Rightarrow>
                  (let endPos = endIdx + length ''</invoke>'';
                       invokeXml = take (endPos - startIdx) (drop startIdx (captureBuffer s));
                       afterInvoke = drop endPos (captureBuffer s);
                       afterTrimmed = trimStart afterInvoke
                   in if afterTrimmed \<noteq> [] \<and> \<not> startsWith (toLowerCase afterTrimmed) ''<invoke''
                         \<and> \<not> force
                      then (push (TextEv (captureBuffer s)) s)
                             \<lparr>captureBuffer := [], capturing := False\<rparr>
                      else
                        (let beforeInvoke = take startIdx (captureBuffer s);
                             s1 = (if beforeInvoke \<noteq> [] then push (TextEv beforeInvoke) s else s);
                             s2 = (case parseInvokeXml invokeXml of
                                     Some parsed \<Rightarrow>
                                       (let s' = push (ToolCallEv parsed) s1;
                                            filteredContent = filterInvokes afterInvoke
                                        in if trim filteredContent \<noteq> []
                                           then push (TextEv filteredContent) s' else s')
                                   | None \<Rightarrow> push (TextEv (captureBuffer s)) s1)
                         in s2\<lparr>captureBuffer := [], capturing := False\<rparr>))))"

definition handleCharWithoutTrigger :: "char \<Rightarrow> ToolifyParser \<Rightarrow> ToolifyParser" where
  "handleCharWithoutTrigger c s =
     (if \<not> thinkingEnabled s then
        (let s1 = s\<lparr>buffer := buffer s @ [c]\<rparr>
         in if length (buffer s1) \<ge> 256
            then (push (TextEv (buffer s1)) s1)\<lparr>buffer := []\<rparr>
            else s1)
      else if thinkingMode s then
        (let s1 = s\<lparr>thinkingBuffer := thinkingBuffer s @ [c]\<rparr>
         in if endsWith (thinkingBuffer s1) THINKING_END_TAG
            then (let thinkingContent =
                        stripArtifact (sliceEnd (thinkingBuffer s1) (length THINKING_END_TAG));
                      s2 = (if thinkingContent \<noteq> [] then push (ThinkingEv thinkingContent) s1
                            else s1)
                  in s2\<lparr>thinkingBuffer := [], thinkingMode := False\<rparr>)
            else s1)
      else
        (let s1 = s\<lparr>buffer := buffer s @ [c]\<rparr>
         in if endsWith (buffer s1) THINKING_START_TAG
            then (let textPortion = sliceEnd (buffer s1) (length THINKING_START_TAG);
                      s2 = (if textPortion \<noteq> [] then push (TextEv textPortion) s1 else s1)
                  in s2\<lparr>buffer := [], thinkingMode := True, thinkingBuffer := []\<rparr>)
            else if length (buffer s1) \<ge> 256
            then (push (TextEv (buffer s1)) s1)\<lparr>buffer := []\<rparr>
            else s1))"

definition checkThinkingMode :: "char \<Rightarrow> ToolifyParser \<Rightarrow> ToolifyParser" where
  "checkThinkingMode c s =
     (if \<not> thinkingEnabled s then s
      else if \<not> thinkingMode s then
        (let tempBuffer = buffer s @ [c]
         in if endsWith tempBuffer THINKING_START_TAG
            then (let textPortion = sliceEnd (buffer s) (length THINKING_START_TAG - 1);
                      s1 = (if textPortion \<noteq> [] then push (TextEv textPortion) s else s)
                  in s1\<lparr>buffer := [], thinkingMode := True, thinkingBuffer := []\<rparr>)
            else s)
      else
        (if endsWith (thinkingBuffer s) THINKING_END_TAG
         then (let thinkingContent =
                     stripArtifact (sliceEnd (thinkingBuffer s) (length THINKING_END_TAG));
                   s1 = (if thinkingContent \<noteq> [] then push (ThinkingEv thinkingContent) s
                         else s)
               in s1\<lparr>thinkingBuffer := [], thinkingMode := False\<rparr>)
         else s))"

text \<open>\<open>feedChar\<close>. The calls of \<open>log\<close> and the empty \<open>tryEmitThinking\<close> change no state
  and are left out. \<open>plainStep\<close> is the end of \<open>feedChar\<close>, from \<open>this.buffer += char\<close> on,
  reached only with a trigger signal \<open>trig\<close> that is not empty.\<close>

definition plainStep :: "string \<Rightarrow> char \<Rightarrow> ToolifyParser \<Rightarrow> ToolifyParser" where
  "plainStep trig c s =
     (let s1 = s\<lparr>buffer := buffer s @ [c]\<rparr>
      in if endsWith (buffer s1) trig
         then (let textPortion = sliceEnd (buffer s1) (length trig);
                   s2 = (if textPortion \<noteq> [] then push (TextEv textPortion) s1 else s1)
               in s2\<lparr>buffer := [], capturing := True, captureBuffer := []\<rparr>)
         else s1)"

definition feedChar :: "char \<Rightarrow> ToolifyParser \<Rightarrow> ToolifyParser" where
  "feedChar c s =
     (case triggerSignal s of
        None \<Rightarrow> handleCharWithoutTrigger c s
      | Some trig \<Rightarrow>
          if trig = [] then handleCharWithoutTrigger c s
          else
            (let s1 = (if thinkingEnabled s then checkThinkingMode c s else s)
             in if thinkingEnabled s1 \<and> thinkingMode s1
                then s1\<lparr>thinkingBuffer := thinkingBuffer s1 @ [c]\<rparr>
                else if capturing s1
                then tryEmitInvokes False (s1\<lparr>captureBuffer := captureBuffer s1 @ [c]\<rparr>)
                else plainStep trig c s1))"

definition finish :: "ToolifyParser \<Rightarrow> ToolifyParser" where
  "finish s =
     (let s1 = (if buffer s \<noteq> [] then push (TextEv (buffer s)) s else s);
          s2 = (if thinkingEnabled s1 \<and> thinkingMode s1 \<and> thinkingBuffer s1 \<noteq> []
                then push (ThinkingEv (stripArtifact (thinkingBuffer s1))) s1 else s1);
          s3 = tryEmitInvokes True s2;
          s4 = push EndEv s3
      in s4\<lparr>buffer := [], captureBuffer := [], capturing := False,
              thinkingBuffer := [], thinkingMode := False\<rparr>)"

text \<open>\<open>consumeEvents\<close> returns the pending events and the parser with an empty queue.\<close>

definition consumeEvents :: "ToolifyParser \<Rightarrow> ParserEvent list \<times> ToolifyParser" where
  "consumeEvents s = (events s, s\<lparr>events := []\<rparr>)"

text \<open>\<open>feed\<close> of \<open>parser_test.ts\<close>: the whole text in one call, a \<open>feedChar\<close> for each
  character in turn.\<close>

definition feed :: "ToolifyParser \<Rightarrow> string \<Rightarrow> ToolifyParser" where
  "feed s text = foldl (\<lambda>p c. feedChar c p) s text"

text \<open>The loop of \<open>main.ts\<close> over the characters of a delta: after each \<open>feedChar\<close> the
  queue is drained and forwarded. The result is everything forwarded, and the parser.\<close>

fun streamChars :: "ToolifyParser \<Rightarrow> string \<Rightarrow> ParserEvent list \<times> ToolifyParser" where
  "streamChars s [] = ([], s)"
| "streamChars s (c # cs) =
     (let (evs, s1) = consumeEvents (feedChar c s);
          (later, s2) = streamChars s1 cs
      in (evs @ later, s2))"

text \<open>The events a request forwards when the text is fed and drained one character at a
  time, and when it is fed in one call of \<open>feed\<close>; each ends with \<open>finish\<close> and a last
  \<open>consumeEvents\<close>.\<close>

definition runStreamed :: "string option \<Rightarrow> bool \<Rightarrow> string \<Rightarrow> ParserEvent list" where
  "runStreamed trig th text =
     (let (out, s) = streamChars (newParser trig th) text
      in out @ fst (consumeEvents (finish s)))"

definition runBulk :: "string option \<Rightarrow> bool \<Rightarrow> string \<Rightarrow> ParserEvent list" where
  "runBulk trig th text = fst (consumeEvents (finish (feed (newParser trig th) text)))"

text \<open>What an extraction attempt does, as a function of the capture buffer alone: \<open>None\<close>
  when it leaves the parser as it is, otherwise the events it queues before it empties the
  capture buffer and leaves capturing. (\<open>tryEmitInvokes_outcome\<close> below proves that this
  is what \<open>tryEmitInvokes\<close> does.)\<close>

definition invokeOutcome :: "bool \<Rightarrow> string \<Rightarrow> ParserEvent list option" where
  "invokeOutcome force cb =
     (case indexOf (toLowerCase cb) ''<invoke'' of
        None \<Rightarrow> if \<not> force then None else Some (if cb \<noteq> [] then [TextEv cb] else [])
      | Some i \<Rightarrow>
          (case indexOfFrom cb ''</invoke>'' i of
             None \<Rightarrow> None
           | Some e \<Rightarrow>
               if trimStart (drop (e + length ''</invoke>'') cb) \<noteq> []
                  \<and> \<not> startsWith (toLowerCase (trimStart (drop (e + length ''</invoke>'') cb)))
                        ''<invoke''
                  \<and> \<not> force
               then Some [TextEv cb]
               else Some
                 ((if take i cb \<noteq> [] then [TextEv (take i cb)] else [])
                  @ (case parseInvokeXml (take (e + length ''</invoke>'' - i) (drop i cb)) of
                       Some parsed \<Rightarrow>
                         ToolCallEv parsed #
                         (if trim (filterInvokes (drop (e + length ''</invoke>'') cb)) \<noteq> []
                          then [TextEv (filterInvokes (drop (e + length ''</invoke>'') cb))]
                          else [])
                     | None \<Rightarrow> [TextEv cb]))))"

text \<open>The text \<^verbatim>\<open>Hi<<CALL>>\n<invoke name="f"><parameter name="x">"1"</parameter></invoke>\n\<close>,
  with its two line feeds.\<close>

definition exampleText :: string where
  "exampleText =
     ''Hi<<CALL>>'' @ [CHR 0x0A]
     @ ''<invoke name=\"f\"><parameter name=\"x\">\"1\"</parameter></invoke>'' @ [CHR 0x0A]"

text \<open>A parser in capturing mode whose capture buffer holds a complete invoke block and
  then other text.\<close>

definition rollbackState :: ToolifyParser where
  "rollbackState =
     (newParser (Some ''<<CALL>>'') False)
       \<lparr>capturing := True, captureBuffer := ''<invoke name=\"f\"></invoke> x''\<rparr>"

section \<open>Properties of the operations\<close>

subsection \<open>Strings\<close>

lemma endsWith_suffix: "endsWith s p \<longleftrightarrow> suffix p s"
proof
  assume "endsWith s p"
  then have "s = take (length s - length p) s @ p"
    by (metis append_take_drop_id endsWith_def)
  then show "suffix p s" by (rule suffixI)
next
  assume "suffix p s"
  then obtain zs where "s = zs @ p" by (auto simp: suffix_def)
  then show "endsWith s p" by (simp add: endsWith_def)
qed

lemma indexOf_None: "indexOf s p = None \<longleftrightarrow> \<not> sublist p s"
proof (induction s)
  case Nil
  show ?case by simp
next
  case (Cons c cs)
  show ?case
    using Cons.IH by (simp add: sublist_Cons_right)
qed


lemma includesStr_sublist: "includesStr s p \<longleftrightarrow> sublist p s"
  by (simp add: includesStr_def indexOf_None)

lemma indexOf_Some:
  "indexOf s p = Some n \<longleftrightarrow>
     n \<le> length s \<and> prefix p (drop n s) \<and> (\<forall>i<n. \<not> prefix p (drop i s))"
proof (induction s arbitrary: n)
  case Nil
  show ?case by auto
next
  case (Cons c cs)
  show ?case
  proof (cases "prefix p (c # cs)")
    case True
    have "(\<forall>i<n. \<not> prefix p (drop i (c # cs))) \<longleftrightarrow> n = 0"
    proof
      assume a: "\<forall>i<n. \<not> prefix p (drop i (c # cs))"
      show "n = 0"
      proof (rule ccontr)
        assume "n \<noteq> 0"
        then have "0 < n" by simp
        with a have "\<not> prefix p (drop 0 (c # cs))" by blast
        with True show False by simp
      qed
    qed simp
    with True show ?thesis by auto
  next
    case False
    show ?thesis
    proof (cases n)
      case 0
      with False show ?thesis by simp
    next
      case (Suc m)
      have "(\<forall>i<Suc m. \<not> prefix p (drop i (c # cs))) \<longleftrightarrow> (\<forall>i<m. \<not> prefix p (drop i cs))"
      proof
        assume a: "\<forall>i<Suc m. \<not> prefix p (drop i (c # cs))"
        show "\<forall>i<m. \<not> prefix p (drop i cs)"
        proof (intro allI impI)
          fix i assume "i < m"
          then have "Suc i < Suc m" by simp
          with a have "\<not> prefix p (drop (Suc i) (c # cs))" by blast
          then show "\<not> prefix p (drop i cs)" by simp
        qed
      next
        assume a: "\<forall>i<m. \<not> prefix p (drop i cs)"
        show "\<forall>i<Suc m. \<not> prefix p (drop i (c # cs))"
        proof (intro allI impI)
          fix i assume i: "i < Suc m"
          show "\<not> prefix p (drop i (c # cs))"
          proof (cases i)
            case 0
            with False show ?thesis by simp
          next
            case (Suc j)
            with i a show ?thesis by simp
          qed
        qed
      qed
      with False Suc Cons.IH[of m] show ?thesis by simp
    qed
  qed
qed

lemma suffix_take_sublist:
  "suffix p b \<Longrightarrow> suffix b pre \<Longrightarrow> sublist p (pre @ post)"
proof -
  assume "suffix p b" and "suffix b pre"
  then have "suffix p pre" by (rule suffix_order.order_trans)
  then obtain a where "pre = a @ p" by (auto simp: suffix_def)
  then have "pre @ post = a @ p @ post" by simp
  then show ?thesis unfolding sublist_def by blast
qed


subsection \<open>\<open>JSON.parse\<close>: the bound on nested calls is never reached\<close>

text \<open>Every successful call consumes input, so a larger bound than the one \<open>JSON_parse\<close>
  starts with changes no result.\<close>

lemma skipWs_length: "length (skipWs s) \<le> length s"
  by (simp add: skipWs_def length_dropWhile_le)

lemma skipWs_Cons_length: "skipWs s = c # cs \<Longrightarrow> length cs < length s"
  using skipWs_length[of s] by simp

lemma jsonEscape_shorter: "jsonEscape cs = Some (n, r) \<Longrightarrow> length r < length cs"
  by (auto simp: jsonEscape_def split: list.splits if_splits option.splits)

lemma jsonChars_shorter: "jsonChars s = Some (u, r) \<Longrightarrow> length r < length s"
proof (induction s arbitrary: u r rule: jsonChars.induct)
  case 1
  then show ?case by simp
next
  case (2 c cs)
  show ?case
  proof (cases "c = CHR ''\"''")
    case True
    with "2.prems" show ?thesis by simp
  next
    case nq: False
    show ?thesis
    proof (cases "c = CHR 0x5C")
      case True
      with "2.prems" nq obtain n r' u' where e: "jsonEscape cs = Some (n, r')"
        and c: "jsonChars r' = Some (u', r)"
        by (auto split: option.splits)
      from "2.IH"(1)[OF nq True e refl c] have "length r < length r'" .
      with jsonEscape_shorter[OF e] show ?thesis by simp
    next
      case False
      with "2.prems" nq obtain u' where c: "jsonChars cs = Some (u', r)"
        by (auto split: if_splits)
      from "2.IH"(2)[OF nq False _ c] "2.prems" nq False have "length r < length cs"
        by (auto split: if_splits)
      then show ?thesis by simp
    qed
  qed
qed

lemma jsonInt_shorter: "jsonInt s = Some (ip, r) \<Longrightarrow> length r < length s"
proof (cases s)
  case Nil
  then show "jsonInt s = Some (ip, r) \<Longrightarrow> length r < length s" by (simp add: jsonInt_def)
next
  case (Cons c cs)
  assume a: "jsonInt s = Some (ip, r)"
  show "length r < length s"
  proof (cases "c = CHR ''0''")
    case True
    with a Cons show ?thesis by (simp add: jsonInt_def)
  next
    case False
    with a Cons have d: "isDigit c" and r: "r = dropWhile isDigit (c # cs)"
      by (auto simp: jsonInt_def split: if_splits)
    from d r have "r = dropWhile isDigit cs" by simp
    then have "length r \<le> length cs" by (simp add: length_dropWhile_le)
    with Cons show ?thesis by simp
  qed
qed

lemma jsonFrac_shorter: "jsonFrac s = Some (fd, r) \<Longrightarrow> length r \<le> length s"
  by (cases s)
     (auto simp: jsonFrac_def split: if_splits intro: le_trans[OF length_dropWhile_le])

lemma jsonExp_shorter: "jsonExp s = Some (ex, r) \<Longrightarrow> length r \<le> length s"
proof (cases s)
  case Nil
  then show "jsonExp s = Some (ex, r) \<Longrightarrow> length r \<le> length s" by (simp add: jsonExp_def)
next
  case (Cons c cs)
  assume a: "jsonExp s = Some (ex, r)"
  show "length r \<le> length s"
  proof (cases "c = CHR ''e'' \<or> c = CHR ''E''")
    case False
    with a Cons show ?thesis by (simp add: jsonExp_def)
  next
    case True
    define r1 where "r1 = (case cs of d # r' \<Rightarrow> if d = CHR ''-'' \<or> d = CHR ''+'' then r' else cs
                          | [] \<Rightarrow> cs)"
    have l1: "length r1 \<le> length cs"
      by (simp add: r1_def split: list.splits)
    from a Cons True have "r = dropWhile isDigit r1"
      by (simp add: jsonExp_def Let_def r1_def split: if_splits)
    then have "length r \<le> length r1" by (simp add: length_dropWhile_le)
    with l1 Cons show ?thesis by simp
  qed
qed

lemma jsonNumber_shorter: "jsonNumber s = Some (v, r) \<Longrightarrow> length r < length s"
proof -
  assume a: "jsonNumber s = Some (v, r)"
  define s1 where "s1 = (if (case s of c # _ \<Rightarrow> c = CHR ''-'' | [] \<Rightarrow> False) then tl s else s)"
  have l1: "length s1 \<le> length s" by (simp add: s1_def)
  from a obtain ip s2 fd s3 ex where i: "jsonInt s1 = Some (ip, s2)"
    and f: "jsonFrac s2 = Some (fd, s3)" and e: "jsonExp s3 = Some (ex, r)"
    by (auto simp: jsonNumber_def Let_def s1_def split: option.splits)
  from jsonInt_shorter[OF i] jsonFrac_shorter[OF f] jsonExp_shorter[OF e] l1
  show ?thesis by simp
qed


lemma json_shorter:
  "(\<forall>s v r. jsonValue n s = Some (v, r) \<longrightarrow> length r < length s) \<and>
   (\<forall>s vs r. jsonElements n s = Some (vs, r) \<longrightarrow> length r < length s) \<and>
   (\<forall>s ms r. jsonMembers n s = Some (ms, r) \<longrightarrow> length r < length s)"
proof (induction n)
  case 0
  show ?case by simp
next
  case (Suc n)
  then have V: "\<And>s v r. jsonValue n s = Some (v, r) \<Longrightarrow> length r < length s"
    and E: "\<And>s vs r. jsonElements n s = Some (vs, r) \<Longrightarrow> length r < length s"
    and M: "\<And>s ms r. jsonMembers n s = Some (ms, r) \<Longrightarrow> length r < length s"
    by blast+
  have v: "length r < length s" if a: "jsonValue (Suc n) s = Some (v, r)" for s v r
  proof -
    from a obtain c cs where sk: "skipWs s = c # cs"
      by (cases "skipWs s") simp_all
    note l = skipWs_Cons_length[OF sk]
    consider (obj) "c = CHR ''{''" | (arr) "c \<noteq> CHR ''{''" "c = CHR ''[''"
      | (str) "c \<noteq> CHR ''{''" "c \<noteq> CHR ''[''" "c = CHR ''\"''"
      | (other) "c \<noteq> CHR ''{''" "c \<noteq> CHR ''[''" "c \<noteq> CHR ''\"''"
      by blast
    then show ?thesis
    proof cases
      case obj
      from a sk obj obtain d r0 where sk2: "skipWs cs = d # r0"
        by (cases "skipWs cs") simp_all
      show ?thesis
      proof (cases "d = CHR ''}''")
        case True
        with a sk obj sk2 have "r = r0" by simp
        with skipWs_Cons_length[OF sk2] l show ?thesis by simp
      next
        case False
        with a sk obj sk2 obtain ms where "jsonMembers n cs = Some (ms, r)"
          by (cases "jsonMembers n cs") auto
        from M[OF this] l show ?thesis by simp
      qed
    next
      case arr
      from a sk arr obtain d r0 where sk2: "skipWs cs = d # r0"
        by (cases "skipWs cs") simp_all
      show ?thesis
      proof (cases "d = CHR '']''")
        case True
        with a sk arr sk2 have "r = r0" by simp
        with skipWs_Cons_length[OF sk2] l show ?thesis by simp
      next
        case False
        with a sk arr sk2 obtain vs where "jsonElements n cs = Some (vs, r)"
          by (cases "jsonElements n cs") auto
        from E[OF this] l show ?thesis by simp
      qed
    next
      case str
      with a sk obtain u where "jsonChars cs = Some (u, r)"
        by (cases "jsonChars cs") auto
      from jsonChars_shorter[OF this] l show ?thesis by simp
    next
      case other
      consider (t) "prefix ''true'' (c # cs)"
        | (f) "\<not> prefix ''true'' (c # cs)" "prefix ''false'' (c # cs)"
        | (n) "\<not> prefix ''true'' (c # cs)" "\<not> prefix ''false'' (c # cs)" "prefix ''null'' (c # cs)"
        | (num) "\<not> prefix ''true'' (c # cs)" "\<not> prefix ''false'' (c # cs)"
                "\<not> prefix ''null'' (c # cs)"
        by blast
      then show ?thesis
      proof cases
        case t
        with a sk other have "r = drop 4 (c # cs)" by (auto split: if_splits)
        with l show ?thesis by simp
      next
        case f
        with a sk other have "r = drop 5 (c # cs)" by (auto split: if_splits)
        with l show ?thesis by simp
      next
        case n
        with a sk other have "r = drop 4 (c # cs)" by (auto split: if_splits)
        with l show ?thesis by simp
      next
        case num
        with a sk other have "jsonNumber (c # cs) = Some (v, r)" by (auto split: if_splits)
        from jsonNumber_shorter[OF this] l show ?thesis by simp
      qed
    qed
  qed
  have e: "length r < length s" if a: "jsonElements (Suc n) s = Some (vs, r)" for s vs r
  proof -
    from a obtain v r0 where jv: "jsonValue n s = Some (v, r0)"
      by (cases "jsonValue n s") auto
    from a jv obtain d r' where sk: "skipWs r0 = d # r'"
      by (cases "skipWs r0") simp_all
    note l = V[OF jv] skipWs_Cons_length[OF sk]
    show ?thesis
    proof (cases "d = CHR '',''")
      case True
      with a jv sk obtain vs' where "jsonElements n r' = Some (vs', r)"
        by (cases "jsonElements n r'") auto
      from E[OF this] l show ?thesis by simp
    next
      case False
      with a jv sk have "r = r'" by (simp split: if_splits)
      with l show ?thesis by simp
    qed
  qed
  have m: "length r < length s" if a: "jsonMembers (Suc n) s = Some (ms, r)" for s ms r
  proof -
    from a obtain q cs where sk: "skipWs s = q # cs"
      by (cases "skipWs s") simp_all
    from a sk have q: "q = CHR ''\"''" by (simp split: if_splits)
    from a sk q obtain k r0 where jc: "jsonChars cs = Some (k, r0)"
      by (cases "jsonChars cs") auto
    from a sk q jc obtain col r1 where sk1: "skipWs r0 = col # r1"
      by (cases "skipWs r0") simp_all
    from a sk q jc sk1 have col: "col = CHR '':''" by (simp split: if_splits)
    from a sk q jc sk1 col obtain v r2 where jv: "jsonValue n r1 = Some (v, r2)"
      by (cases "jsonValue n r1") auto
    from a sk q jc sk1 col jv obtain d r3 where sk2: "skipWs r2 = d # r3"
      by (cases "skipWs r2") simp_all
    note l = skipWs_Cons_length[OF sk] jsonChars_shorter[OF jc] skipWs_Cons_length[OF sk1]
      V[OF jv] skipWs_Cons_length[OF sk2]
    show ?thesis
    proof (cases "d = CHR '',''")
      case True
      with a sk q jc sk1 col jv sk2 obtain ms' where "jsonMembers n r3 = Some (ms', r)"
        by (cases "jsonMembers n r3") auto
      from M[OF this] l show ?thesis by simp
    next
      case False
      with a sk q jc sk1 col jv sk2 have "r = r3" by (simp split: if_splits)
      with l show ?thesis by simp
    qed
  qed
  from v e m show ?case by blast
qed


lemmas jsonValue_shorter = json_shorter[THEN conjunct1, rule_format]

lemma json_stable:
  "(\<forall>s. 2 * length s + 1 \<le> n \<longrightarrow> jsonValue (Suc n) s = jsonValue n s) \<and>
   (\<forall>s. 2 * length s + 2 \<le> n \<longrightarrow> jsonElements (Suc n) s = jsonElements n s) \<and>
   (\<forall>s. 2 * length s + 1 \<le> n \<longrightarrow> jsonMembers (Suc n) s = jsonMembers n s)"
proof (induction n)
  case 0
  show ?case by simp
next
  case (Suc n)
  then have V: "\<And>s. 2 * length s + 1 \<le> n \<Longrightarrow> jsonValue (Suc n) s = jsonValue n s"
    and E: "\<And>s. 2 * length s + 2 \<le> n \<Longrightarrow> jsonElements (Suc n) s = jsonElements n s"
    and M: "\<And>s. 2 * length s + 1 \<le> n \<Longrightarrow> jsonMembers (Suc n) s = jsonMembers n s"
    by blast+
  note unfold_v = jsonValue.simps(2)[of "Suc n"] jsonValue.simps(2)[of n]
  note unfold_e = jsonElements.simps(2)[of "Suc n"] jsonElements.simps(2)[of n]
  note unfold_m = jsonMembers.simps(2)[of "Suc n"] jsonMembers.simps(2)[of n]
  note [simp del] = jsonValue.simps jsonElements.simps jsonMembers.simps
  have v: "jsonValue (Suc (Suc n)) s = jsonValue (Suc n) s" if b: "2 * length s + 1 \<le> Suc n" for s
  proof (cases "skipWs s")
    case Nil
    then show ?thesis by (simp add: unfold_v split: list.splits)
  next
    case (Cons c cs)
    from skipWs_Cons_length[OF Cons] b have "2 * length cs + 2 \<le> n" by simp
    then have "jsonMembers (Suc n) cs = jsonMembers n cs"
      and "jsonElements (Suc n) cs = jsonElements n cs"
      by (simp_all add: M E)
    with Cons show ?thesis by (simp add: unfold_v split: list.splits)
  qed
  have e: "jsonElements (Suc (Suc n)) s = jsonElements (Suc n) s"
    if b: "2 * length s + 2 \<le> Suc n" for s
  proof -
    from b have jv: "jsonValue (Suc n) s = jsonValue n s" by (simp add: V)
    show ?thesis
    proof (cases "jsonValue n s")
      case None
      with jv show ?thesis by (simp add: unfold_e split: list.splits)
    next
      case (Some p)
      obtain v r where p: "p = (v, r)" by (cases p)
      from jsonValue_shorter[of n s v r] Some p have l: "length r < length s" by simp
      show ?thesis
      proof (cases "skipWs r")
        case Nil
        with jv Some p show ?thesis by (simp add: unfold_e split: list.splits)
      next
        case (Cons d r')
        from skipWs_Cons_length[OF Cons] l b have "2 * length r' + 2 \<le> n" by simp
        then have "jsonElements (Suc n) r' = jsonElements n r'" by (simp add: E)
        with jv Some p Cons show ?thesis by (simp add: unfold_e split: list.splits)
      qed
    qed
  qed
  have m: "jsonMembers (Suc (Suc n)) s = jsonMembers (Suc n) s"
    if b: "2 * length s + 1 \<le> Suc n" for s
  proof (cases "skipWs s")
    case Nil
    then show ?thesis by (simp add: unfold_m split: list.splits)
  next
    case sk: (Cons q cs)
    note l0 = skipWs_Cons_length[OF sk]
    show ?thesis
    proof (cases "jsonChars cs")
      case None
      with sk show ?thesis by (simp add: unfold_m split: list.splits)
    next
      case (Some p)
      obtain k r where p: "p = (k, r)" by (cases p)
      from jsonChars_shorter[of cs k r] Some p have l1: "length r < length cs" by simp
      show ?thesis
      proof (cases "skipWs r")
        case Nil
        with sk Some p show ?thesis by (simp add: unfold_m split: list.splits)
      next
        case sk1: (Cons col r1)
        note l2 = skipWs_Cons_length[OF sk1]
        from l0 l1 l2 b have "2 * length r1 + 1 \<le> n" by simp
        then have jv: "jsonValue (Suc n) r1 = jsonValue n r1" by (simp add: V)
        show ?thesis
        proof (cases "jsonValue n r1")
          case None
          with sk Some p sk1 jv show ?thesis by (simp add: unfold_m split: list.splits)
        next
          case v: (Some pv)
          obtain v r2 where pv: "pv = (v, r2)" by (cases pv)
          from jsonValue_shorter[of n r1 v r2] v pv have l3: "length r2 < length r1" by simp
          show ?thesis
          proof (cases "skipWs r2")
            case Nil
            with sk Some p sk1 jv v pv show ?thesis by (simp add: unfold_m split: list.splits)
          next
            case sk2: (Cons d r3)
            from skipWs_Cons_length[OF sk2] l0 l1 l2 l3 b have "2 * length r3 + 1 \<le> n" by simp
            then have "jsonMembers (Suc n) r3 = jsonMembers n r3" by (simp add: M)
            with sk Some p sk1 jv v pv sk2 show ?thesis by (simp add: unfold_m split: list.splits)
          qed
        qed
      qed
    qed
  qed
  from v e m show ?case by blast
qed

lemma jsonValue_fuel:
  "2 * length s + 2 \<le> n \<Longrightarrow> jsonValue n s = jsonValue (2 * length s + 2) s"
proof (induction n)
  case 0
  then show ?case by simp
next
  case (Suc n)
  show ?case
  proof (cases "2 * length s + 2 \<le> n")
    case True
    then have "jsonValue (Suc n) s = jsonValue n s"
      using json_stable[of n] by simp
    with Suc.IH[OF True] show ?thesis by simp
  next
    case False
    with Suc.prems have "Suc n = 2 * length s + 2" by simp
    then show ?thesis by simp
  qed
qed

lemma JSON_parse_fuel:
  assumes "2 * length s + 2 \<le> n"
  shows "JSON_parse s =
     (case jsonValue n s of
        None \<Rightarrow> None
      | Some (v, r) \<Rightarrow> if skipWs r = [] then Some v else None)"
  by (simp add: JSON_parse_def jsonValue_fuel[OF assms])

subsection \<open>The extraction attempt, case by case\<close>

lemma tryEmitInvokes_none:
  "indexOf (toLowerCase (captureBuffer s)) ''<invoke'' = None \<Longrightarrow>
   tryEmitInvokes force s =
     (if \<not> force then s
      else if captureBuffer s \<noteq> []
      then s\<lparr>events := events s @ [TextEv (captureBuffer s)], captureBuffer := [], capturing := False\<rparr>
      else s\<lparr>capturing := False\<rparr>)"
  by (simp add: tryEmitInvokes_def push_def)

lemma tryEmitInvokes_incomplete:
  "indexOf (toLowerCase (captureBuffer s)) ''<invoke'' = Some i \<Longrightarrow>
   indexOfFrom (captureBuffer s) ''</invoke>'' i = None \<Longrightarrow>
   tryEmitInvokes force s = s"
  by (simp add: tryEmitInvokes_def)

lemma tryEmitInvokes_rollback:
  "indexOf (toLowerCase (captureBuffer s)) ''<invoke'' = Some i \<Longrightarrow>
   indexOfFrom (captureBuffer s) ''</invoke>'' i = Some e \<Longrightarrow>
   trimStart (drop (e + length ''</invoke>'') (captureBuffer s)) \<noteq> [] \<Longrightarrow>
   \<not> startsWith (toLowerCase (trimStart (drop (e + length ''</invoke>'') (captureBuffer s)))) ''<invoke'' \<Longrightarrow>
   \<not> force \<Longrightarrow>
   tryEmitInvokes force s =
     s\<lparr>events := events s @ [TextEv (captureBuffer s)], captureBuffer := [], capturing := False\<rparr>"
  by (simp add: tryEmitInvokes_def push_def Let_def)

lemma tryEmitInvokes_extract:
  "indexOf (toLowerCase (captureBuffer s)) ''<invoke'' = Some i \<Longrightarrow>
   indexOfFrom (captureBuffer s) ''</invoke>'' i = Some e \<Longrightarrow>
   \<not> (trimStart (drop (e + length ''</invoke>'') (captureBuffer s)) \<noteq> [] \<and>
   \<not> startsWith (toLowerCase (trimStart (drop (e + length ''</invoke>'') (captureBuffer s)))) ''<invoke'' \<and>
   \<not> force) \<Longrightarrow>
   tryEmitInvokes force s =
     s\<lparr>events := events s
          @ (if take i (captureBuffer s) \<noteq> [] then [TextEv (take i (captureBuffer s))] else [])
          @ (case parseInvokeXml (take (e + length ''</invoke>'' - i) (drop i (captureBuffer s))) of
               Some parsed \<Rightarrow>
                 ToolCallEv parsed #
                 (if trim (filterInvokes (drop (e + length ''</invoke>'') (captureBuffer s))) \<noteq> []
                  then [TextEv (filterInvokes (drop (e + length ''</invoke>'') (captureBuffer s)))] else [])
             | None \<Rightarrow> [TextEv (captureBuffer s)]),
        captureBuffer := [], capturing := False\<rparr>"
  apply (cases "parseInvokeXml (take (e + length ''</invoke>'' - i) (drop i (captureBuffer s)))")
   apply (simp_all add: tryEmitInvokes_def push_def Let_def)
  done



lemma tryEmitInvokes_outcome:
  "tryEmitInvokes force s =
     (case invokeOutcome force (captureBuffer s) of
        None \<Rightarrow> s
      | Some evs \<Rightarrow> s\<lparr>events := events s @ evs, captureBuffer := [], capturing := False\<rparr>)"
proof (cases "indexOf (toLowerCase (captureBuffer s)) ''<invoke''")
  case None
  then show ?thesis by (simp add: tryEmitInvokes_none invokeOutcome_def)
next
  case (Some i)
  show ?thesis
  proof (cases "indexOfFrom (captureBuffer s) ''</invoke>'' i")
    case None
    with Some show ?thesis by (simp add: tryEmitInvokes_incomplete invokeOutcome_def)
  next
    case e: (Some e)
    show ?thesis
    proof (cases "trimStart (drop (e + length ''</invoke>'') (captureBuffer s)) \<noteq> [] \<and>
        \<not> startsWith (toLowerCase (trimStart (drop (e + length ''</invoke>'') (captureBuffer s)))) ''<invoke'' \<and>
        \<not> force")
      case True
      with Some e show ?thesis by (simp add: tryEmitInvokes_rollback invokeOutcome_def)
    next
      case False
      then have F: "(trimStart (drop (e + length ''</invoke>'') (captureBuffer s)) \<noteq> [] \<and>
        \<not> startsWith (toLowerCase (trimStart (drop (e + length ''</invoke>'') (captureBuffer s)))) ''<invoke'' \<and>
        \<not> force) = False"
        by (rule eq_False[THEN iffD2])
      show ?thesis
        by (subst tryEmitInvokes_extract[OF Some e False])
           (simp only: invokeOutcome_def Some e option.case F if_False)
    qed
  qed
qed

subsection \<open>The operations append to the queue and never read it\<close>

lemma tryEmitInvokes_frame:
  "tryEmitInvokes force (s\<lparr>events := es\<rparr>) =
     (tryEmitInvokes force (s\<lparr>events := []\<rparr>))
       \<lparr>events := es @ events (tryEmitInvokes force (s\<lparr>events := []\<rparr>))\<rparr>"
  by (simp add: tryEmitInvokes_outcome split: option.splits)


lemma handleCharWithoutTrigger_frame:
  "handleCharWithoutTrigger c (s\<lparr>events := es\<rparr>) =
     (handleCharWithoutTrigger c (s\<lparr>events := []\<rparr>))
       \<lparr>events := es @ events (handleCharWithoutTrigger c (s\<lparr>events := []\<rparr>))\<rparr>"
  by (simp add: handleCharWithoutTrigger_def push_def Let_def)

lemma checkThinkingMode_frame:
  "checkThinkingMode c (s\<lparr>events := es\<rparr>) =
     (checkThinkingMode c (s\<lparr>events := []\<rparr>))
       \<lparr>events := es @ events (checkThinkingMode c (s\<lparr>events := []\<rparr>))\<rparr>"
  by (simp add: checkThinkingMode_def push_def Let_def)

lemma feedChar_frame:
  "feedChar c (s\<lparr>events := es\<rparr>) =
     (feedChar c (s\<lparr>events := []\<rparr>))
       \<lparr>events := es @ events (feedChar c (s\<lparr>events := []\<rparr>))\<rparr>"
proof (cases "triggerSignal s")
  case None
  then show ?thesis
    using handleCharWithoutTrigger_frame[where c=c and s=s and es=es] by (simp add: feedChar_def)
next
  case (Some trig)
  show ?thesis
  proof (cases "trig = []")
    case True
    with Some show ?thesis
      using handleCharWithoutTrigger_frame[where c=c and s=s and es=es] by (simp add: feedChar_def)
  next
    case False
    show ?thesis
    proof (cases "thinkingEnabled s")
      case en: True
      with Some False show ?thesis
        using checkThinkingMode_frame[where c=c and s=s and es=es]
        by (simp add: feedChar_def tryEmitInvokes_outcome plainStep_def push_def Let_def
            split: option.splits)
    next
      case dis: False
      with Some False show ?thesis
        by (simp add: feedChar_def tryEmitInvokes_outcome plainStep_def push_def Let_def
            split: option.splits)
    qed
  qed
qed

lemma finish_frame:
  "finish (s\<lparr>events := es\<rparr>) =
     (finish (s\<lparr>events := []\<rparr>))\<lparr>events := es @ events (finish (s\<lparr>events := []\<rparr>))\<rparr>"
  by (simp add: finish_def tryEmitInvokes_outcome push_def Let_def split: option.splits)

lemma feed_frame:
  "feed (s\<lparr>events := es\<rparr>) inp =
     (feed (s\<lparr>events := []\<rparr>) inp)\<lparr>events := es @ events (feed (s\<lparr>events := []\<rparr>) inp)\<rparr>"
proof (induction inp arbitrary: s es)
  case Nil
  show ?case by (simp add: feed_def)
next
  case (Cons c cs)
  let ?k = "feedChar c (s\<lparr>events := []\<rparr>)"
  have a: "feed (s\<lparr>events := es\<rparr>) (c # cs) = feed (?k\<lparr>events := es @ events ?k\<rparr>) cs"
    by (simp add: feed_def feedChar_frame[where c=c and s=s and es=es])
  have b: "feed (s\<lparr>events := []\<rparr>) (c # cs) = feed (?k\<lparr>events := events ?k\<rparr>) cs"
    by (simp add: feed_def)
  have c1: "feed (?k\<lparr>events := es @ events ?k\<rparr>) cs =
      (feed (?k\<lparr>events := []\<rparr>) cs)
        \<lparr>events := (es @ events ?k) @ events (feed (?k\<lparr>events := []\<rparr>) cs)\<rparr>"
    by (rule Cons.IH)
  have c2: "feed (?k\<lparr>events := events ?k\<rparr>) cs =
      (feed (?k\<lparr>events := []\<rparr>) cs)
        \<lparr>events := events ?k @ events (feed (?k\<lparr>events := []\<rparr>) cs)\<rparr>"
    by (rule Cons.IH)
  show ?case
    unfolding a b c1 c2 by simp
qed

subsection \<open>Draining and finishing\<close>

lemma streamChars_feed:
  "events s = [] \<Longrightarrow>
   streamChars s inp = (events (feed s inp), (feed s inp)\<lparr>events := []\<rparr>)"
proof (induction inp arbitrary: s)
  case Nil
  then show ?case by (simp add: feed_def)
next
  case (Cons c cs)
  let ?k = "feedChar c s"
  have ih: "streamChars (?k\<lparr>events := []\<rparr>) cs =
      (events (feed (?k\<lparr>events := []\<rparr>) cs), (feed (?k\<lparr>events := []\<rparr>) cs)\<lparr>events := []\<rparr>)"
    by (rule Cons.IH) simp
  have fr: "feed s (c # cs) =
      (feed (?k\<lparr>events := []\<rparr>) cs)
        \<lparr>events := events ?k @ events (feed (?k\<lparr>events := []\<rparr>) cs)\<rparr>"
    using feed_frame[where s = ?k and es = "events ?k" and inp = cs] by (simp add: feed_def)
  show ?case
    by (simp add: consumeEvents_def ih fr)
qed

lemma finish_reset:
  "finish s = (newParser (triggerSignal s) (thinkingEnabled s))\<lparr>events := events (finish s)\<rparr>"
  by (cases s) (simp add: finish_def tryEmitInvokes_outcome push_def newParser_def Let_def
      split: option.splits)

lemma finish_events_fresh:
  "buffer s = [] \<Longrightarrow> captureBuffer s = [] \<Longrightarrow> \<not> thinkingMode s \<Longrightarrow>
   events (finish s) = events s @ [EndEv]"
  by (simp add: finish_def tryEmitInvokes_outcome invokeOutcome_def push_def Let_def toLowerCase_def)

lemma finish_fields:
  "buffer (finish s) = [] \<and> captureBuffer (finish s) = [] \<and> \<not> capturing (finish s)
   \<and> thinkingBuffer (finish s) = [] \<and> \<not> thinkingMode (finish s)"
  by (simp add: finish_def Let_def)

lemma finish_twice: "events (finish (finish s)) = events (finish s) @ [EndEv]"
  by (rule finish_events_fresh) (simp_all add: finish_fields)

subsection \<open>Text that holds neither a trigger signal nor a start tag\<close>

lemma feed_Nil: "feed s [] = s"
  by (simp add: feed_def)

lemma feed_Cons: "feed s (c # cs) = feed (feedChar c s) cs"
  by (simp add: feed_def)

lemma feed_append: "feed s (a @ b) = feed (feed s a) b"
  by (simp add: feed_def)

lemma feedChar_noTrigger: "noTrigger s \<Longrightarrow> feedChar c s = handleCharWithoutTrigger c s"
  by (simp add: feedChar_def noTrigger_def split: option.splits)

lemma feedChar_plain_trigger:
  assumes "triggerSignal s = Some trig" and "trig \<noteq> []"
    and "\<not> capturing s" and "\<not> thinkingMode s"
    and "\<not> endsWith (buffer s @ [c]) trig"
    and "thinkingEnabled s \<longrightarrow> \<not> endsWith (buffer s @ [c]) THINKING_START_TAG"
  shows "feedChar c s = s\<lparr>buffer := buffer s @ [c]\<rparr>"
  using assms by (simp add: feedChar_def checkThinkingMode_def plainStep_def Let_def)

lemma no_occurrence_step:
  assumes "\<not> sublist p (b @ c # cs)"
  shows "\<not> endsWith (b @ [c]) p"
proof
  assume "endsWith (b @ [c]) p"
  then have "suffix p (b @ [c])" by (simp add: endsWith_suffix)
  then have "sublist p ((b @ [c]) @ cs)" by (rule suffix_take_sublist) simp
  with assms show False by simp
qed

lemma sublist_prepend: "sublist p ys \<Longrightarrow> sublist p (xs @ ys)"
proof -
  assume "sublist p ys"
  then obtain a b where "ys = a @ p @ b" by (auto simp: sublist_def)
  then have "xs @ ys = (xs @ a) @ p @ b" by simp
  then show ?thesis unfolding sublist_def by blast
qed

lemma feed_plain_trigger:
  assumes "triggerSignal s = Some trig" and "trig \<noteq> []"
    and "\<not> capturing s" and "\<not> thinkingMode s"
    and "\<not> sublist trig (buffer s @ inp)"
    and "thinkingEnabled s \<longrightarrow> \<not> sublist THINKING_START_TAG (buffer s @ inp)"
  shows "feed s inp = s\<lparr>buffer := buffer s @ inp\<rparr>"
  using assms
proof (induction inp arbitrary: s)
  case Nil
  show ?case by (simp add: feed_Nil)
next
  case (Cons c cs)
  have step: "feedChar c s = s\<lparr>buffer := buffer s @ [c]\<rparr>"
    using Cons.prems by (intro feedChar_plain_trigger) (auto dest: no_occurrence_step)
  have "feed (s\<lparr>buffer := buffer s @ [c]\<rparr>) cs
      = (s\<lparr>buffer := buffer s @ [c]\<rparr>)\<lparr>buffer := buffer (s\<lparr>buffer := buffer s @ [c]\<rparr>) @ cs\<rparr>"
    using Cons.prems by (intro Cons.IH) simp_all
  then show ?case by (simp add: feed_Cons step)
qed

lemma invokeOutcome_empty: "invokeOutcome True [] = Some []"
  by (simp add: invokeOutcome_def toLowerCase_def)

lemma finish_plain:
  "\<not> thinkingMode s \<Longrightarrow> captureBuffer s = [] \<Longrightarrow>
   events (finish s) = events s @ (if buffer s \<noteq> [] then [TextEv (buffer s)] else []) @ [EndEv]"
  by (simp add: finish_def tryEmitInvokes_outcome invokeOutcome_empty push_def Let_def)

lemma handleChar_plain:
  assumes "\<not> thinkingMode s"
    and "thinkingEnabled s \<longrightarrow> \<not> endsWith (buffer s @ [c]) THINKING_START_TAG"
  shows "handleCharWithoutTrigger c s =
     (if length (buffer s @ [c]) \<ge> 256
      then s\<lparr>events := events s @ [TextEv (buffer s @ [c])], buffer := []\<rparr>
      else s\<lparr>buffer := buffer s @ [c]\<rparr>)"
  using assms by (simp add: handleCharWithoutTrigger_def push_def Let_def)

lemma feed_noTrigger:
  assumes "noTrigger s" and "\<not> thinkingMode s"
    and "thinkingEnabled s \<longrightarrow> \<not> sublist THINKING_START_TAG (buffer s @ inp)"
  shows "\<exists>ts b. feed s inp = s\<lparr>events := events s @ map TextEv ts, buffer := b\<rparr>
           \<and> concat ts @ b = buffer s @ inp \<and> [] \<notin> set ts"
  using assms
proof (induction inp arbitrary: s)
  case Nil
  have "feed s [] = s\<lparr>events := events s @ map TextEv [], buffer := buffer s\<rparr>"
    by (simp add: feed_Nil)
  then show ?case by fastforce
next
  case (Cons c cs)
  have nt: "thinkingEnabled s \<longrightarrow> \<not> endsWith (buffer s @ [c]) THINKING_START_TAG"
    using Cons.prems(3) by (auto dest: no_occurrence_step)
  have fc: "feedChar c s =
     (if length (buffer s @ [c]) \<ge> 256
      then s\<lparr>events := events s @ [TextEv (buffer s @ [c])], buffer := []\<rparr>
      else s\<lparr>buffer := buffer s @ [c]\<rparr>)"
    using Cons.prems(1,2) nt by (simp add: feedChar_noTrigger handleChar_plain)
  show ?case
  proof (cases "length (buffer s @ [c]) \<ge> 256")
    case True
    let ?s1 = "s\<lparr>events := events s @ [TextEv (buffer s @ [c])], buffer := []\<rparr>"
    have "thinkingEnabled ?s1 \<longrightarrow> \<not> sublist THINKING_START_TAG (buffer ?s1 @ cs)"
    proof
      assume "thinkingEnabled ?s1"
      then have "\<not> sublist THINKING_START_TAG ((buffer s @ [c]) @ cs)"
        using Cons.prems(3) by simp
      then show "\<not> sublist THINKING_START_TAG (buffer ?s1 @ cs)"
        using sublist_prepend[of THINKING_START_TAG cs "buffer s @ [c]"] by auto
    qed
    moreover have "noTrigger ?s1" "\<not> thinkingMode ?s1"
      using Cons.prems(1,2) by (simp_all add: noTrigger_def)
    ultimately obtain ts b where
      f: "feed ?s1 cs = ?s1\<lparr>events := events ?s1 @ map TextEv ts, buffer := b\<rparr>"
      and c: "concat ts @ b = buffer ?s1 @ cs" and n: "[] \<notin> set ts"
      using Cons.IH[of ?s1] by blast
    have "feed s (c # cs) = s\<lparr>events := events s @ map TextEv ((buffer s @ [c]) # ts), buffer := b\<rparr>"
      using True f by (simp add: feed_Cons fc)
    moreover have "concat ((buffer s @ [c]) # ts) @ b = buffer s @ c # cs"
      using c by simp
    moreover have "[] \<notin> set ((buffer s @ [c]) # ts)"
      using n by simp
    ultimately show ?thesis by blast
  next
    case False
    let ?s1 = "s\<lparr>buffer := buffer s @ [c]\<rparr>"
    have "thinkingEnabled ?s1 \<longrightarrow> \<not> sublist THINKING_START_TAG (buffer ?s1 @ cs)"
      using Cons.prems(3) by simp
    moreover have "noTrigger ?s1" "\<not> thinkingMode ?s1"
      using Cons.prems(1,2) by (simp_all add: noTrigger_def)
    ultimately obtain ts b where
      f: "feed ?s1 cs = ?s1\<lparr>events := events ?s1 @ map TextEv ts, buffer := b\<rparr>"
      and c: "concat ts @ b = buffer ?s1 @ cs" and n: "[] \<notin> set ts"
      using Cons.IH[of ?s1] by blast
    have "feed s (c # cs) = s\<lparr>events := events s @ map TextEv ts, buffer := b\<rparr>"
      using False f by (simp add: feed_Cons fc)
    moreover have "concat ts @ b = buffer s @ c # cs"
      using c by simp
    ultimately show ?thesis using n by blast
  qed
qed


lemma newParser_fields:
  "triggerSignal (newParser trig th) = trig" "thinkingEnabled (newParser trig th) = th"
  "buffer (newParser trig th) = []" "captureBuffer (newParser trig th) = []"
  "\<not> capturing (newParser trig th)" "\<not> thinkingMode (newParser trig th)"
  "thinkingBuffer (newParser trig th) = []" "events (newParser trig th) = []"
  by (simp_all add: newParser_def)

lemma runBulk_events: "runBulk trig th inp = events (finish (feed (newParser trig th) inp))"
  by (simp add: runBulk_def consumeEvents_def)

lemma runBulk_trigger:
  assumes "trig \<noteq> []" and "\<not> includesStr inp trig"
    and "th \<longrightarrow> \<not> includesStr inp THINKING_START_TAG"
  shows "feed (newParser (Some trig) th) inp = (newParser (Some trig) th)\<lparr>buffer := inp\<rparr>"
    and "runBulk (Some trig) th inp = (if inp = [] then [EndEv] else [TextEv inp, EndEv])"
proof -
  let ?p = "newParser (Some trig) th"
  have "feed ?p inp = ?p\<lparr>buffer := buffer ?p @ inp\<rparr>"
    using assms by (intro feed_plain_trigger[where trig = trig])
      (simp_all add: newParser_fields includesStr_sublist)
  then show f: "feed ?p inp = ?p\<lparr>buffer := inp\<rparr>"
    by (simp add: newParser_fields)
  show "runBulk (Some trig) th inp = (if inp = [] then [EndEv] else [TextEv inp, EndEv])"
    by (simp add: runBulk_events f finish_plain newParser_fields)
qed

lemma runBulk_noTrigger:
  assumes "trig = None \<or> trig = Some []"
    and "th \<longrightarrow> \<not> includesStr inp THINKING_START_TAG"
  shows "\<exists>ts. runBulk trig th inp = map TextEv ts @ [EndEv] \<and> concat ts = inp \<and> [] \<notin> set ts"
proof -
  let ?p = "newParser trig th"
  have "noTrigger ?p" using assms(1) by (auto simp: noTrigger_def newParser_def)
  moreover have "\<not> thinkingMode ?p" by (simp add: newParser_fields)
  moreover have "thinkingEnabled ?p \<longrightarrow> \<not> sublist THINKING_START_TAG (buffer ?p @ inp)"
    using assms(2) by (simp add: newParser_fields includesStr_sublist)
  ultimately obtain ts b where
    f: "feed ?p inp = ?p\<lparr>events := events ?p @ map TextEv ts, buffer := b\<rparr>"
    and c: "concat ts @ b = buffer ?p @ inp" and n: "[] \<notin> set ts"
    using feed_noTrigger[of ?p inp] by blast
  have ev: "runBulk trig th inp = map TextEv ts @ (if b \<noteq> [] then [TextEv b] else []) @ [EndEv]"
    by (simp add: runBulk_events f finish_plain newParser_fields)
  show ?thesis
  proof (cases "b = []")
    case True
    with ev c n show ?thesis by (auto simp: newParser_fields)
  next
    case False
    with ev have "runBulk trig th inp = map TextEv (ts @ [b]) @ [EndEv]" by simp
    moreover from c have "concat (ts @ [b]) = inp" by (simp add: newParser_fields)
    moreover from n False have "[] \<notin> set (ts @ [b])" by auto
    ultimately show ?thesis by blast
  qed
qed

lemma feed_noTrigger_accumulate:
  assumes "noTrigger s" and "\<not> thinkingMode s"
    and "thinkingEnabled s \<longrightarrow> \<not> sublist THINKING_START_TAG (buffer s @ inp)"
    and "length (buffer s @ inp) < 256"
  shows "feed s inp = s\<lparr>buffer := buffer s @ inp\<rparr>"
  using assms
proof (induction inp arbitrary: s)
  case Nil
  show ?case by (simp add: feed_Nil)
next
  case (Cons c cs)
  have nt: "thinkingEnabled s \<longrightarrow> \<not> endsWith (buffer s @ [c]) THINKING_START_TAG"
    using Cons.prems(3) by (auto dest: no_occurrence_step)
  have step: "feedChar c s = s\<lparr>buffer := buffer s @ [c]\<rparr>"
    using Cons.prems(1,2,4) nt by (simp add: feedChar_noTrigger handleChar_plain)
  have "feed (s\<lparr>buffer := buffer s @ [c]\<rparr>) cs
      = (s\<lparr>buffer := buffer s @ [c]\<rparr>)\<lparr>buffer := buffer (s\<lparr>buffer := buffer s @ [c]\<rparr>) @ cs\<rparr>"
    using Cons.prems by (intro Cons.IH) (simp_all add: noTrigger_def)
  then show ?case by (simp add: feed_Cons step)
qed

lemma feed_noTrigger_flush:
  assumes "256 \<le> length inp" and "th \<longrightarrow> \<not> includesStr inp THINKING_START_TAG"
  shows "\<exists>later. events (feed (newParser None th) inp) = TextEv (take 256 inp) # later"
proof -
  let ?p = "newParser None th"
  let ?a = "take 255 inp" and ?c = "inp ! 255" and ?r = "drop 256 inp"
  have split: "inp = ?a @ ?c # ?r"
    using assms(1) id_take_nth_drop[of 255 inp] by simp
  have t256: "take 256 inp = ?a @ [?c]"
    using assms(1) take_Suc_conv_app_nth[of 255 inp] by simp
  have nosub: "th \<longrightarrow> \<not> sublist THINKING_START_TAG (?a @ ?c # ?r)"
    using assms(2) split by (simp add: includesStr_sublist)
  have np: "noTrigger ?p" by (simp add: noTrigger_def newParser_def)
  have nosub_a: "th \<longrightarrow> \<not> sublist THINKING_START_TAG ?a"
  proof
    assume th
    with nosub have n: "\<not> sublist THINKING_START_TAG (?a @ ?c # ?r)" by simp
    show "\<not> sublist THINKING_START_TAG ?a"
    proof
      assume "sublist THINKING_START_TAG ?a"
      then obtain x y where "?a = x @ THINKING_START_TAG @ y" by (auto simp: sublist_def)
      then have "?a @ ?c # ?r = x @ THINKING_START_TAG @ (y @ ?c # ?r)" by simp
      then have "sublist THINKING_START_TAG (?a @ ?c # ?r)" unfolding sublist_def by blast
      with n show False by simp
    qed
  qed
  have fa: "feed ?p ?a = ?p\<lparr>buffer := ?a\<rparr>"
    using feed_noTrigger_accumulate[of ?p ?a] np nosub_a assms(1)
    by (simp add: newParser_fields)
  have nt: "th \<longrightarrow> \<not> endsWith (?a @ [?c]) THINKING_START_TAG"
    using nosub by (auto dest: no_occurrence_step)
  have fc: "feedChar ?c (?p\<lparr>buffer := ?a\<rparr>) =
      ?p\<lparr>buffer := [], events := [TextEv (?a @ [?c])]\<rparr>"
    using np nt assms(1)
    by (simp add: feedChar_noTrigger noTrigger_def handleChar_plain newParser_fields)
  let ?s1 = "?p\<lparr>buffer := [], events := [TextEv (?a @ [?c])]\<rparr>"
  have "feed ?p inp = feed ?s1 ?r"
    by (subst split) (simp add: feed_append feed_Cons fa fc)
  moreover have "events (feed ?s1 ?r) = [TextEv (?a @ [?c])] @ events (feed (?p\<lparr>buffer := [], events := []\<rparr>) ?r)"
    using feed_frame[where s = "?p\<lparr>buffer := []\<rparr>" and es = "[TextEv (?a @ [?c])]" and inp = ?r]
    by simp
  ultimately show ?thesis by (simp add: t256)
qed

subsection \<open>Inside a thinking block, without a trigger signal\<close>

lemma handleChar_thinking:
  assumes "thinkingEnabled s" and "thinkingMode s"
  shows "handleCharWithoutTrigger c s =
     (if endsWith (thinkingBuffer s @ [c]) THINKING_END_TAG
      then s\<lparr>events := events s @
                (let content = stripArtifact
                       (sliceEnd (thinkingBuffer s @ [c]) (length THINKING_END_TAG))
                 in if content \<noteq> [] then [ThinkingEv content] else []),
              thinkingBuffer := [], thinkingMode := False\<rparr>
      else s\<lparr>thinkingBuffer := thinkingBuffer s @ [c]\<rparr>)"
  using assms by (simp add: handleCharWithoutTrigger_def push_def Let_def)

lemma feed_thinking_accumulate:
  assumes "noTrigger s" and "thinkingEnabled s" and "thinkingMode s"
    and "\<forall>k. 0 < k \<and> k \<le> length inp \<longrightarrow>
           \<not> suffix THINKING_END_TAG (thinkingBuffer s @ take k inp)"
  shows "feed s inp = s\<lparr>thinkingBuffer := thinkingBuffer s @ inp\<rparr>"
  using assms
proof (induction inp arbitrary: s)
  case Nil
  show ?case by (simp add: feed_Nil)
next
  case (Cons c cs)
  have "\<not> suffix THINKING_END_TAG (thinkingBuffer s @ take 1 (c # cs))"
    using Cons.prems(4) by (intro Cons.prems(4)[rule_format]) simp
  then have ne: "\<not> endsWith (thinkingBuffer s @ [c]) THINKING_END_TAG"
    by (simp add: endsWith_suffix)
  have step: "feedChar c s = s\<lparr>thinkingBuffer := thinkingBuffer s @ [c]\<rparr>"
    using Cons.prems(1,2,3) ne by (simp add: feedChar_noTrigger handleChar_thinking)
  let ?s1 = "s\<lparr>thinkingBuffer := thinkingBuffer s @ [c]\<rparr>"
  have "\<forall>k. 0 < k \<and> k \<le> length cs \<longrightarrow>
           \<not> suffix THINKING_END_TAG (thinkingBuffer ?s1 @ take k cs)"
  proof (intro allI impI)
    fix k assume k: "0 < k \<and> k \<le> length cs"
    then have "\<not> suffix THINKING_END_TAG (thinkingBuffer s @ take (Suc k) (c # cs))"
      by (intro Cons.prems(4)[rule_format]) simp
    then show "\<not> suffix THINKING_END_TAG (thinkingBuffer ?s1 @ take k cs)" by simp
  qed
  then have "feed ?s1 cs = ?s1\<lparr>thinkingBuffer := thinkingBuffer ?s1 @ cs\<rparr>"
    using Cons.prems(1,2,3) by (intro Cons.IH) (simp_all add: noTrigger_def)
  then show ?case by (simp add: feed_Cons step)
qed

lemma first_occurrence_no_earlier_suffix:
  assumes "indexOf (content @ p) p = Some (length content)"
    and "0 < k" and "k < length (content @ p)"
  shows "\<not> suffix p (take k (content @ p))"
proof
  assume "suffix p (take k (content @ p))"
  then obtain zs where zs: "take k (content @ p) = zs @ p" by (auto simp: suffix_def)
  have lk: "length zs + length p = k"
    using arg_cong[OF zs, of length] assms(3) by simp
  then have lt: "length zs < length content" using assms(3) by simp
  have "content @ p = take k (content @ p) @ drop k (content @ p)"
    by (rule append_take_drop_id[symmetric])
  then have "content @ p = (zs @ p) @ drop k (content @ p)" by (simp only: zs)
  then have "content @ p = zs @ p @ drop k (content @ p)" by (simp only: append_assoc)
  then have "drop (length zs) (content @ p) = p @ drop k (content @ p)"
    by (metis append_eq_conv_conj)
  then have "prefix p (drop (length zs) (content @ p))" by simp
  moreover have "\<forall>i<length content. \<not> prefix p (drop i (content @ p))"
    using assms(1) by (simp add: indexOf_Some)
  ultimately show False using lt by blast
qed

lemma take_le_append: "k \<le> length xs \<Longrightarrow> take k (xs @ ys) = take k xs"
  by simp

lemma stripArtifact_run:
  assumes "\<forall>c\<in>set ws1. isSpace c" and "\<forall>c\<in>set ws2. isSpace c"
  shows "stripArtifact (ws1 @ ''>'' @ ws2 @ rest) = dropWhile isSpace rest"
proof -
  have "\<not> isSpace CHR ''>''" by (simp add: isSpace_def)
  then have "dropWhile isSpace (ws1 @ ''>'' @ ws2 @ rest) = CHR ''>'' # ws2 @ rest"
    using assms(1) by simp
  moreover have "dropWhile isSpace (ws2 @ rest) = dropWhile isSpace rest"
    using assms(2) by simp
  ultimately show ?thesis by (simp add: stripArtifact_def)
qed

subsection \<open>The coercions of \<open>extractDeltaText\<close>\<close>

lemma textField_cases: "textField v = [] \<or> (\<exists>t. textField v = [t])"
  by (cases v) (auto simp: textField_def split: option.splits)

lemma partText_no_field:
  "textField v = [] \<Longrightarrow> partText str v = Inr (elementText txt v)"
  by (cases v)
     (auto simp: partText_def elementText_def fieldText_def textField_def getProp_def
       split: option.splits)

lemma partText_field_ok:
  "textField v = [t] \<Longrightarrow> coerceText str t = Inr u \<Longrightarrow>
   partText str v = Inr u \<and> elementText (textOf str) v = u"
  by (cases v)
     (auto simp: partText_def elementText_def fieldText_def textField_def getProp_def textOf_def
       split: option.splits)

lemma partText_field_throws:
  "textField v = [t] \<Longrightarrow> coerceText str t = Inl err \<Longrightarrow> partText str v = Inl err"
  by (cases v) (auto simp: partText_def textField_def getProp_def split: option.splits)

lemma collect_parts:
  "collect (map (partText str) parts) =
     (case firstFailure str (concat (map textField parts)) of
        Some err \<Rightarrow> Inl err
      | None \<Rightarrow> Inr (map (elementText (textOf str)) parts))"
proof (induction parts)
  case Nil
  show ?case by simp
next
  case (Cons p ps)
  from textField_cases[of p] show ?case
  proof
    assume e: "textField p = []"
    with Cons.IH partText_no_field[OF e, of str "textOf str"] show ?thesis
      by (simp split: option.splits)
  next
    assume "\<exists>t. textField p = [t]"
    then obtain t where t: "textField p = [t]" by blast
    show ?thesis
    proof (cases "coerceText str t")
      case (Inl err)
      with t partText_field_throws[OF t Inl] show ?thesis by simp
    next
      case (Inr u)
      with t partText_field_ok[OF t Inr] Cons.IH show ?thesis
        by (simp split: option.splits)
    qed
  qed
qed

lemma field_coercion:
  "(case getProp v ''text'' of Some t \<Rightarrow> coerceText str t | None \<Rightarrow> Inr []) =
     (case firstFailure str (textField v) of
        Some err \<Rightarrow> Inl err
      | None \<Rightarrow> Inr (fieldText (textOf str) v))"
proof (cases v)
  case (JObject kvs)
  show ?thesis
  proof (cases "map_of kvs (ustr ''text'')")
    case None
    with JObject show ?thesis by (simp add: getProp_def textField_def fieldText_def)
  next
    case (Some t)
    with JObject show ?thesis
      by (cases "coerceText str t")
         (simp_all add: getProp_def textField_def fieldText_def textOf_def)
  qed
qed (simp_all add: getProp_def textField_def fieldText_def)

subsection \<open>\<open>String\<close> on some deltas\<close>

text \<open>
  Whatever the limits of the engine: a \<open>text\<close> that is an empty array inside \<open>n\<close> arrays
  is printed as the empty string when the stack has room for the nested calls, and raises
  a \<open>RangeError\<close> otherwise; a \<open>text\<close> that is an object with an own \<open>toString\<close> property
  raises a \<open>TypeError\<close>; the mixed sequence gives \<open>abtrue\<close>.
\<close>

lemma ToString_nestedArray:
  "ToString nts maxLen depth (nestedArray n) = (if n < depth then Inr [] else Inl RangeError)"
proof (induction n arbitrary: depth)
  case 0
  show ?case by (cases depth) simp_all
next
  case (Suc n)
  show ?case
  proof (cases depth)
    case 0
    then show ?thesis by simp
  next
    case d: (Suc d)
    have "nestedArray n \<noteq> JNull" by (cases n) simp_all
    with d Suc.IH[of d] show ?thesis by simp
  qed
qed

lemma nestedDelta_text:
  "extractDeltaText (ToString nts maxLen depth) maxLen' (nestedDelta n) =
     (if n < depth then Inr [] else Inl RangeError)"
proof -
  have "nestedArray n \<noteq> JNull" by (cases n) simp_all
  then show ?thesis
    by (simp add: extractDeltaText_def nestedDelta_def getProp_def falsy_def coerceText_def
        ToString_nestedArray)
qed

lemma throwingDelta_text:
  "extractDeltaText (ToString nts maxLen depth) maxLen' throwingDelta = Inl TypeError"
  by (simp add: extractDeltaText_def throwingDelta_def getProp_def falsy_def coerceText_def
      ustr_def)

lemma mixedDelta_text:
  "6 \<le> maxLen \<Longrightarrow>
   extractDeltaText (ToString nts maxLen' depth) maxLen mixedDelta = Inr (ustr ''abtrue'')"
  by (simp add: extractDeltaText_def mixedDelta_def getProp_def falsy_def coerceText_def
      partText_def joinStrings_def ustr_def)

section \<open>The example of the specification\<close>

lemma example_run_plain:
  "runBulk (Some ''<<CALL>>'') False exampleText =
     [TextEv ''Hi'', TextEv [CHR 0x0A], ToolCallEv (''f'', [(''x'', JString (ustr ''1''))]),
      TextEv [CHR 0x0A], EndEv]"
  by code_simp

lemma example_run_thinking:
  "runBulk (Some ''<<CALL>>'') True exampleText =
     [TextEv ''Hi'', TextEv [CHR 0x0A], ToolCallEv (''f'', [(''x'', JString (ustr ''1''))]),
      TextEv [CHR 0x0A], EndEv]"
  by code_simp

text \<open>What \<open>JSON.parse\<close> makes of the text \<open>1\<close> and of the text \<open>"1"\<close> (with its quotes):
  the number one and a string.\<close>

lemma JSON_parse_one: "JSON_parse ''1'' = Some (JNumber (Finite False 1 0))"
  by code_simp

lemma JSON_parse_quoted_one: "JSON_parse ''\"1\"'' = Some (JString (ustr ''1''))"
  by code_simp

text \<open>
  Claim C1, as the code has it. With the trigger signal \<open><<CALL>>\<close>, thinking enabled or
  not, feeding the example text one character at a time and then calling \<open>finish\<close> queues:
  the text \<open>Hi\<close>; the line feed in front of the open marker, as a text of its own; a tool
  call named \<open>f\<close> whose argument \<open>x\<close> is the string \<open>1\<close>, since the inner text of the
  parameter is \<open>"1"\<close> with its quotes, a JSON string literal; the line feed after the close
  marker, as a text; and the end event.
\<close>

theorem C1_example_events:
  "runBulk (Some ''<<CALL>>'') th exampleText =
     [TextEv ''Hi'', TextEv [CHR 0x0A], ToolCallEv (''f'', [(''x'', JString (ustr ''1''))]),
      TextEv [CHR 0x0A], EndEv]"
  by (cases th) (simp_all only: example_run_plain example_run_thinking)

text \<open>Claim C1 as stated fails: no tool call with \<open>x\<close> bound to the number one is among the
  events of the example.\<close>

theorem C1_counterexample:
  "ToolCallEv (''f'', [(''x'', JNumber (Finite False 1 0))])
     \<notin> set (runBulk (Some ''<<CALL>>'') False exampleText)"
  by (simp only: example_run_plain) (simp add: ustr_def)

section \<open>The event queue\<close>

text \<open>
  Claim C8. \<open>consumeEvents\<close> is a destructive read: it returns the queued events in queue
  order and leaves the queue empty, so a second call with nothing fed in between returns
  the empty sequence (and changes nothing more).
\<close>

theorem C8_consumeEvents_twice:
  "fst (consumeEvents s) = events s \<and>
   events (snd (consumeEvents s)) = [] \<and>
   consumeEvents (snd (consumeEvents s)) = ([], snd (consumeEvents s))"
  by (simp add: consumeEvents_def)

text \<open>
  Claim C5. For every configuration and every text, feeding the characters one by one and
  draining the queue after each (the loop of \<open>main.ts\<close>), then \<open>finish\<close> and a last
  drain, forwards the same events in the same order as one call of \<open>feed\<close> on the whole
  text, then \<open>finish\<close> and one drain.
\<close>

theorem C5_streamed_eq_bulk: "runStreamed trig th inp = runBulk trig th inp"
proof -
  let ?p = "newParser trig th"
  have "events ?p = []" by (simp add: newParser_def)
  then have st: "streamChars ?p inp = (events (feed ?p inp), (feed ?p inp)\<lparr>events := []\<rparr>)"
    by (rule streamChars_feed)
  have "finish (feed ?p inp) =
      (finish ((feed ?p inp)\<lparr>events := []\<rparr>))
        \<lparr>events := events (feed ?p inp) @ events (finish ((feed ?p inp)\<lparr>events := []\<rparr>))\<rparr>"
    using finish_frame[where s = "feed ?p inp" and es = "events (feed ?p inp)"] by simp
  then have "events (finish (feed ?p inp)) =
      events (feed ?p inp) @ events (finish ((feed ?p inp)\<lparr>events := []\<rparr>))"
    by simp
  then show ?thesis
    by (simp add: runStreamed_def runBulk_def st consumeEvents_def)
qed

section \<open>After \<open>finish\<close>\<close>

text \<open>Claim C2 as stated fails: a second \<open>finish\<close> changes the queue of a parser that has
  been finished.\<close>

theorem C2_counterexample:
  "events (finish (finish (newParser None False))) \<noteq> events (finish (newParser None False))"
  by (simp add: finish_twice)

text \<open>
  Claim C2, as the code has it. \<open>finish\<close> queues \<open>end\<close> last and resets the buffers and
  the mode to those of a new parser of the same configuration, and nothing records that
  the parser has finished: a second \<open>finish\<close> queues exactly one more \<open>end\<close>, and text
  fed after \<open>finish\<close> is handled as by a new parser, its events queued behind \<open>end\<close>.
\<close>

theorem C2_finish_not_terminal:
  "events (finish (finish s)) = events (finish s) @ [EndEv] \<and>
   (\<exists>pre. events (finish s) = pre @ [EndEv]) \<and>
   finish s = (newParser (triggerSignal s) (thinkingEnabled s))\<lparr>events := events (finish s)\<rparr> \<and>
   feed (finish s) inp =
     (feed (newParser (triggerSignal s) (thinkingEnabled s)) inp)
       \<lparr>events := events (finish s)
                  @ events (feed (newParser (triggerSignal s) (thinkingEnabled s)) inp)\<rparr>"
proof -
  let ?n = "newParser (triggerSignal s) (thinkingEnabled s)"
  have r: "finish s = ?n\<lparr>events := events (finish s)\<rparr>" by (rule finish_reset)
  have a: "events (finish (finish s)) = events (finish s) @ [EndEv]"
    by (rule finish_twice)
  have b: "\<exists>pre. events (finish s) = pre @ [EndEv]"
    by (simp add: finish_def push_def Let_def)
  have "feed (?n\<lparr>events := events (finish s)\<rparr>) inp =
     (feed (?n\<lparr>events := []\<rparr>) inp)
       \<lparr>events := events (finish s) @ events (feed (?n\<lparr>events := []\<rparr>) inp)\<rparr>"
    by (rule feed_frame)
  moreover have "?n\<lparr>events := []\<rparr> = ?n" by (simp add: newParser_def)
  ultimately have c: "feed (finish s) inp =
     (feed ?n inp)\<lparr>events := events (finish s) @ events (feed ?n inp)\<rparr>"
    using r by simp
  from a b r c show ?thesis by blast
qed

section \<open>Rollback of a capture\<close>

text \<open>
  Claim C6. In capturing mode, when an unforced extraction attempt finds a complete invoke
  block (open marker at \<open>startIdx\<close>, close marker at \<open>endIdx\<close>) and what follows the close
  marker is, after trimming leading white space, not empty and does not start with an open
  marker, it queues the capture buffer as one text event, verbatim and nothing else (no
  tool call, and not the trigger signal, which never was in the capture buffer), empties
  the buffer and leaves capturing.
\<close>

theorem C6_rollback_to_text:
  assumes "capturing s"
    and "indexOf (toLowerCase (captureBuffer s)) ''<invoke'' = Some startIdx"
    and "indexOfFrom (captureBuffer s) ''</invoke>'' startIdx = Some endIdx"
    and "afterTrimmed = trimStart (drop (endIdx + length ''</invoke>'') (captureBuffer s))"
    and "afterTrimmed \<noteq> []"
    and "\<not> startsWith (toLowerCase afterTrimmed) ''<invoke''"
  shows "tryEmitInvokes False s =
           s\<lparr>events := events s @ [TextEv (captureBuffer s)],
             captureBuffer := [], capturing := False\<rparr>"
  using assms by (simp add: tryEmitInvokes_rollback)

theorem C6_rollback_witness:
  "capturing rollbackState \<and>
   indexOf (toLowerCase (captureBuffer rollbackState)) ''<invoke'' = Some 0 \<and>
   indexOfFrom (captureBuffer rollbackState) ''</invoke>'' 0 = Some 17 \<and>
   trimStart (drop (17 + length ''</invoke>'') (captureBuffer rollbackState)) = ''x'' \<and>
   \<not> startsWith (toLowerCase ''x'') ''<invoke'' \<and>
   events (tryEmitInvokes False rollbackState) = [TextEv ''<invoke name=\"f\"></invoke> x''] \<and>
   \<not> capturing (tryEmitInvokes False rollbackState)"
proof -
  have h1: "capturing rollbackState" by (simp add: rollbackState_def)
  have h2: "indexOf (toLowerCase (captureBuffer rollbackState)) ''<invoke'' = Some 0"
    by code_simp
  have h3: "indexOfFrom (captureBuffer rollbackState) ''</invoke>'' 0 = Some 17"
    by code_simp
  have h4: "''x'' = trimStart (drop (17 + length ''</invoke>'') (captureBuffer rollbackState))"
    by code_simp
  have h5: "''x'' \<noteq> []" by simp
  have h6: "\<not> startsWith (toLowerCase ''x'') ''<invoke''" by code_simp
  have "tryEmitInvokes False rollbackState =
      rollbackState\<lparr>events := events rollbackState @ [TextEv (captureBuffer rollbackState)],
        captureBuffer := [], capturing := False\<rparr>"
    by (rule C6_rollback_to_text[OF h1 h2 h3 h4 h5 h6])
  then have "events (tryEmitInvokes False rollbackState) = [TextEv ''<invoke name=\"f\"></invoke> x'']"
    and "\<not> capturing (tryEmitInvokes False rollbackState)"
    by (simp_all add: rollbackState_def newParser_def)
  with h1 h2 h3 h4 h6 show ?thesis by simp
qed

section \<open>Thinking events at \<open>finish\<close>\<close>

text \<open>
  Claim C3 fails on the code. \<open>finish\<close> tests the thinking buffer for emptiness before the
  correction of the leading artifact, not after it as the two other paths do, and with a
  trigger signal the end tag is looked for only when the next character arrives. So a
  stream that ends right after the start tag (with a trigger signal), or after the start
  tag and \<open>>\<close> (without), yields a thinking event with empty content, and a stream that
  ends right after the end tag (with a trigger signal) yields a thinking event whose
  content holds the end tag.
\<close>

theorem C3_finish_thinking_events:
  "runBulk (Some ''<<CALL>>'') True ''<thinking>'' = [ThinkingEv [], EndEv] \<and>
   runBulk None True ''<thinking>>'' = [ThinkingEv [], EndEv] \<and>
   runBulk (Some ''<<CALL>>'') True ''<thinking>hi</thinking>''
     = [ThinkingEv ''hi</thinking>'', EndEv]"
  by code_simp


section \<open>Plain text\<close>

text \<open>
  Claim C4. For every configuration (any trigger signal or none, thinking enabled or not)
  and every text in which neither the trigger signal nor a thinking tag occurs, feeding the
  text character by character and then calling \<open>finish\<close> queues text events only, none
  of them empty, whose contents concatenated are the text, and then the single end event.
\<close>

theorem C4_plain_text_passes_through:
  assumes "case trig of None \<Rightarrow> True | Some t \<Rightarrow> \<not> includesStr inp t"
    and "\<not> includesStr inp THINKING_START_TAG"
    and "\<not> includesStr inp THINKING_END_TAG"
  shows "\<exists>ts. runBulk trig th inp = map TextEv ts @ [EndEv] \<and> concat ts = inp \<and> [] \<notin> set ts"
proof (cases "trig = None \<or> trig = Some []")
  case True
  then show ?thesis using assms(2) by (intro runBulk_noTrigger) simp_all
next
  case False
  then obtain t where t: "trig = Some t" "t \<noteq> []" by auto
  with assms(1) have nt: "\<not> includesStr inp t" by simp
  have "runBulk (Some t) th inp = (if inp = [] then [EndEv] else [TextEv inp, EndEv])"
    using t(2) nt assms(2) by (intro runBulk_trigger(2)) simp_all
  then have "runBulk trig th inp = map TextEv (if inp = [] then [] else [inp]) @ [EndEv]"
    using t(1) by simp
  moreover have "concat (if inp = [] then [] else [inp]) = inp" by simp
  moreover have "[] \<notin> set (if inp = [] then [] else [inp])" by simp
  ultimately show ?thesis by blast
qed

theorem C4_witness:
  "\<not> includesStr ''a < b'' ''<<CALL>>'' \<and>
   \<not> includesStr ''a < b'' THINKING_START_TAG \<and>
   \<not> includesStr ''a < b'' THINKING_END_TAG \<and>
   (\<exists>ts. runBulk (Some ''<<CALL>>'') True ''a < b'' = map TextEv ts @ [EndEv]
        \<and> concat ts = ''a < b'' \<and> [] \<notin> set ts)"
proof -
  have h1: "case Some ''<<CALL>>'' of None \<Rightarrow> True | Some t \<Rightarrow> \<not> includesStr ''a < b'' t"
    by code_simp
  have h2: "\<not> includesStr ''a < b'' THINKING_START_TAG" by code_simp
  have h3: "\<not> includesStr ''a < b'' THINKING_END_TAG" by code_simp
  from C4_plain_text_passes_through[OF h1 h2 h3, of True] h1 h2 h3 show ?thesis by simp
qed

text \<open>
  Claim C10. With a trigger signal (not empty), text in which neither the signal nor, when
  thinking is enabled, the start tag occurs is never flushed by size: however long it is,
  feeding it queues nothing and leaves all of it in the plain buffer, and \<open>finish\<close> queues
  it as one text event. Without a trigger signal the same text, once it has 256 characters,
  has had its first 256 characters queued as a text event.
\<close>

theorem C10_no_size_flush_with_trigger:
  assumes "trig \<noteq> []" and "\<not> includesStr inp trig"
    and "th \<longrightarrow> \<not> includesStr inp THINKING_START_TAG"
  shows "feed (newParser (Some trig) th) inp = (newParser (Some trig) th)\<lparr>buffer := inp\<rparr>
       \<and> runBulk (Some trig) th inp = (if inp = [] then [EndEv] else [TextEv inp, EndEv])
       \<and> (256 \<le> length inp \<longrightarrow>
            (\<exists>later. events (feed (newParser None th) inp) = TextEv (take 256 inp) # later))"
  using runBulk_trigger[OF assms] feed_noTrigger_flush[OF _ assms(3)] by blast

theorem C10_witness:
  "\<not> includesStr (replicate 300 CHR ''a'') ''<<CALL>>'' \<and>
   \<not> includesStr (replicate 300 CHR ''a'') THINKING_START_TAG \<and>
   events (feed (newParser (Some ''<<CALL>>'') True) (replicate 300 CHR ''a'')) = [] \<and>
   runBulk (Some ''<<CALL>>'') True (replicate 300 CHR ''a'')
     = [TextEv (replicate 300 CHR ''a''), EndEv] \<and>
   (\<exists>later. events (feed (newParser None True) (replicate 300 CHR ''a''))
           = TextEv (replicate 256 CHR ''a'') # later)"
proof -
  have h1: "''<<CALL>>'' \<noteq> []" by simp
  have h2: "\<not> includesStr (replicate 300 CHR ''a'') ''<<CALL>>''" by code_simp
  have h3: "True \<longrightarrow> \<not> includesStr (replicate 300 CHR ''a'') THINKING_START_TAG" by code_simp
  have ne: "replicate 300 CHR ''a'' \<noteq> []" by simp
  from C10_no_size_flush_with_trigger[OF h1 h2 h3] h2 h3 ne show ?thesis
    by (simp add: newParser_def)
qed

section \<open>The leading artifact without a trigger signal\<close>

text \<open>
  Claim C9. Without a trigger signal and with thinking enabled, a parser that has just
  entered thinking mode has an empty thinking buffer (the whole start tag was consumed, as
  the example after the theorem shows for a new parser). All the same, when the content
  of the block is white space, \<open>>\<close>, white space and then \<open>rest\<close> (and the end tag occurs
  first where the block ends), the run up to \<open>rest\<close> is stripped: the thinking event holds
  \<open>rest\<close> without its leading white space, and no event is queued when nothing is left.
\<close>

theorem C9_leading_gt_stripped_without_trigger:
  assumes "noTrigger s" and "thinkingEnabled s" and "thinkingMode s"
    and "thinkingBuffer s = []"
    and "\<forall>c\<in>set ws1. isSpace c" and "\<forall>c\<in>set ws2. isSpace c"
    and "content = ws1 @ ''>'' @ ws2 @ rest"
    and "indexOf (content @ THINKING_END_TAG) THINKING_END_TAG = Some (length content)"
  shows "feed s (content @ THINKING_END_TAG) =
           s\<lparr>events := events s @
                  (if dropWhile isSpace rest = [] then []
                   else [ThinkingEv (dropWhile isSpace rest)]),
             thinkingBuffer := [], thinkingMode := False\<rparr>"
proof -
  let ?pre = "content @ ''</thinking''"
  have e: "content @ THINKING_END_TAG = ?pre @ ''>''"
    by (simp add: THINKING_END_TAG_def)
  have "\<forall>k. 0 < k \<and> k \<le> length ?pre \<longrightarrow>
           \<not> suffix THINKING_END_TAG (thinkingBuffer s @ take k ?pre)"
  proof (intro allI impI)
    fix k assume k: "0 < k \<and> k \<le> length ?pre"
    then have "k < length (content @ THINKING_END_TAG)"
      by (simp add: THINKING_END_TAG_def)
    with k assms(8) have "\<not> suffix THINKING_END_TAG (take k (content @ THINKING_END_TAG))"
      by (intro first_occurrence_no_earlier_suffix) simp_all
    moreover have "take k (content @ THINKING_END_TAG) = take k ?pre"
      unfolding e using k by (intro take_le_append) simp
    ultimately show "\<not> suffix THINKING_END_TAG (thinkingBuffer s @ take k ?pre)"
      using assms(4) by simp
  qed
  then have acc: "feed s ?pre = s\<lparr>thinkingBuffer := ?pre\<rparr>"
    using feed_thinking_accumulate[of s ?pre] assms(1,2,3,4) by simp
  let ?s1 = "s\<lparr>thinkingBuffer := ?pre\<rparr>"
  have ew: "endsWith (thinkingBuffer ?s1 @ ''>'') THINKING_END_TAG"
    by (simp add: endsWith_suffix THINKING_END_TAG_def suffix_def)
  have sl: "sliceEnd (thinkingBuffer ?s1 @ ''>'') (length THINKING_END_TAG) = content"
    by (simp add: sliceEnd_def THINKING_END_TAG_def)
  have st: "stripArtifact content = dropWhile isSpace rest"
    unfolding assms(7) using assms(5,6) by (rule stripArtifact_run)
  have fc: "feedChar CHR ''>'' ?s1 =
      ?s1\<lparr>events := events ?s1 @
                (if dropWhile isSpace rest = [] then [] else [ThinkingEv (dropWhile isSpace rest)]),
           thinkingBuffer := [], thinkingMode := False\<rparr>"
    using assms(1,2,3) ew sl st
    by (simp add: feedChar_noTrigger noTrigger_def handleChar_thinking Let_def)
  have "feed s (content @ THINKING_END_TAG) = feed s (?pre @ ''>'')"
    by (simp only: e)
  also have "\<dots> = feed (feed s ?pre) ''>''"
    by (rule feed_append)
  also have "\<dots> = feed ?s1 ''>''"
    by (simp only: acc)
  also have "\<dots> = feedChar CHR ''>'' ?s1"
    by (simp only: feed_Cons feed_Nil)
  also have "\<dots> = ?s1\<lparr>events := events ?s1 @
                (if dropWhile isSpace rest = [] then [] else [ThinkingEv (dropWhile isSpace rest)]),
           thinkingBuffer := [], thinkingMode := False\<rparr>"
    by (rule fc)
  also have "\<dots> = s\<lparr>events := events s @
                  (if dropWhile isSpace rest = [] then []
                   else [ThinkingEv (dropWhile isSpace rest)]),
             thinkingBuffer := [], thinkingMode := False\<rparr>"
    by simp
  finally show ?thesis .
qed

theorem C9_witness:
  "feed (newParser None True) ''<thinking>'' = (newParser None True)\<lparr>thinkingMode := True\<rparr> \<and>
   indexOf ('' > > x'' @ THINKING_END_TAG) THINKING_END_TAG = Some (length '' > > x'') \<and>
   feed (newParser None True) (''<thinking>'' @ '' > > x'' @ THINKING_END_TAG)
     = (newParser None True)\<lparr>events := [ThinkingEv ''> x'']\<rparr>"
proof -
  let ?s = "feed (newParser None True) ''<thinking>''"
  have s: "?s = (newParser None True)\<lparr>thinkingMode := True\<rparr>" by code_simp
  have h1: "noTrigger ?s" and h2: "thinkingEnabled ?s" and h3: "thinkingMode ?s"
    and h4: "thinkingBuffer ?s = []"
    unfolding s by (simp_all add: noTrigger_def newParser_def)
  have h5: "\<forall>c\<in>set '' ''. isSpace c" by (simp add: isSpace_def)
  have h7: "'' > > x'' = '' '' @ ''>'' @ '' '' @ ''> x''" by simp
  have h8: "indexOf ('' > > x'' @ THINKING_END_TAG) THINKING_END_TAG = Some (length '' > > x'')"
    by code_simp
  have r: "feed ?s ('' > > x'' @ THINKING_END_TAG) =
      ?s\<lparr>events := events ?s @
                  (if dropWhile isSpace ''> x'' = [] then []
                   else [ThinkingEv (dropWhile isSpace ''> x'')]),
             thinkingBuffer := [], thinkingMode := False\<rparr>"
    by (rule C9_leading_gt_stripped_without_trigger[OF h1 h2 h3 h4 h5 h5 h7 h8])
  have d: "dropWhile isSpace ''> x'' = ''> x''" by (simp add: isSpace_def)
  have "?s\<lparr>events := events ?s @
                  (if dropWhile isSpace ''> x'' = [] then []
                   else [ThinkingEv (dropWhile isSpace ''> x'')]),
             thinkingBuffer := [], thinkingMode := False\<rparr>
      = (newParser None True)\<lparr>events := [ThinkingEv ''> x'']\<rparr>"
    unfolding d s by (simp add: newParser_def)
  with r have fin: "feed ?s ('' > > x'' @ THINKING_END_TAG) =
      (newParser None True)\<lparr>events := [ThinkingEv ''> x'']\<rparr>"
    by (rule trans)
  have fa: "feed (newParser None True) (''<thinking>'' @ '' > > x'' @ THINKING_END_TAG)
      = feed ?s ('' > > x'' @ THINKING_END_TAG)"
    by (rule feed_append)
  show ?thesis
    by (intro conjI) (rule s, rule h8, rule trans[OF fa fin])
qed


section \<open>The text of a delta: precedence and exceptions\<close>

text \<open>Claim C7 as stated fails: \<open>extractDeltaText\<close> throws on the delta
  \<^verbatim>\<open>{"content": {"text": {"toString": null}}}\<close>.\<close>

theorem C7_counterexample:
  "extractDeltaText (ToString noDigits v8MaxLength 1000) v8MaxLength throwingDelta
     = Inl TypeError"
  by (rule throwingDelta_text)

text \<open>
  Claim C7, as the code has it. \<open>extractDeltaText\<close> follows the precedence of the
  specification (\<open>deltaTextSpec\<close>), a \<open>text\<close> field being coerced by \<open>String(x ?? "")\<close>, and
  it is not total. Whatever \<open>String\<close> does: when one of the coercions of the \<open>text\<close>
  fields throws, \<open>extractDeltaText\<close> throws the exception of the first that does; when
  none throws and the content is a sequence whose joined text is longer than the longest
  string of the engine, it throws a \<open>RangeError\<close>; in every other case it returns the text
  that the precedence gives.
\<close>

theorem C7_extractDeltaText:
  "extractDeltaText str maxLen delta =
     (case firstFailure str (coercedTexts delta) of
        Some err \<Rightarrow> Inl err
      | None \<Rightarrow>
          if joined delta \<and> maxLen < length (deltaTextSpec (textOf str) delta)
          then Inl RangeError
          else Inr (deltaTextSpec (textOf str) delta))"
proof (cases delta)
  case None
  then show ?thesis
    by (simp add: extractDeltaText_def deltaTextSpec_def coercedTexts_def joined_def)
next
  case (Some d)
  show ?thesis
  proof (cases d)
    case (JObject dkvs)
    show ?thesis
    proof (cases "map_of dkvs (ustr ''content'')")
      case None
      with Some JObject show ?thesis
        by (simp add: extractDeltaText_def deltaTextSpec_def coercedTexts_def joined_def
            getProp_def falsy_def)
    next
      case c: (Some content)
      show ?thesis
      proof (cases content)
        case (JArray parts)
        with Some JObject c show ?thesis
          by (simp add: extractDeltaText_def deltaTextSpec_def coercedTexts_def joined_def
              getProp_def falsy_def collect_parts joinStrings_def split: option.splits)
      next
        case o: (JObject kvs)
        with Some JObject c show ?thesis
          using field_coercion[where v = content and str = str]
          by (simp add: extractDeltaText_def deltaTextSpec_def coercedTexts_def joined_def
              getProp_def falsy_def split: option.splits)
      qed (use Some JObject c in \<open>auto simp: extractDeltaText_def deltaTextSpec_def
              coercedTexts_def joined_def getProp_def falsy_def split: double.splits\<close>)
    qed
  qed (use Some in \<open>simp_all add: extractDeltaText_def deltaTextSpec_def
          coercedTexts_def joined_def getProp_def falsy_def\<close>)
qed

end
